theory Spec2Isabelle
  imports Main "HOL-Library.Word" "HOL-Library.Sublist"
begin

section \<open>JavaScript values used by HomePage.js\<close>

text \<open>
  A JavaScript string is a sequence of UTF-16 code units.  \<open>null\<close> and \<open>undefined\<close> are
  the \<open>None\<close> of an option type; truthiness is written out per type.
\<close>

type_synonym jschar = "16 word"
type_synonym jsstring = "jschar list"

definition js :: "string \<Rightarrow> jsstring" where
  "js s = map (\<lambda>c. of_nat (of_char c)) s"

text \<open>
  \<open>String.prototype.trim\<close> strips WhiteSpace and LineTerminator code points (ECMA-262):
  TAB, LF, VT, FF, CR, SP, NBSP, the Unicode space separators, LS, PS and ZWNBSP.
\<close>

definition isWhiteSpace :: "jschar \<Rightarrow> bool" where
  "isWhiteSpace c \<longleftrightarrow>
     c = 0x9 \<or> c = 0xA \<or> c = 0xB \<or> c = 0xC \<or> c = 0xD \<or> c = 0x20 \<or> c = 0xA0 \<or>
     c = 0x1680 \<or> (0x2000 \<le> c \<and> c \<le> 0x200A) \<or> c = 0x2028 \<or> c = 0x2029 \<or>
     c = 0x202F \<or> c = 0x205F \<or> c = 0x3000 \<or> c = 0xFEFF"

definition trim :: "jsstring \<Rightarrow> jsstring" where
  "trim s = rev (dropWhile isWhiteSpace (rev (dropWhile isWhiteSpace s)))"

text \<open>
  \<open>String.prototype.includes\<close>: some position of the receiver starts a copy of the
  search string.
\<close>

fun includes_js :: "jsstring \<Rightarrow> jsstring \<Rightarrow> bool" where
  "includes_js [] t = (t = [])"
| "includes_js (c # cs) t = (prefix t (c # cs) \<or> includes_js cs t)"

text \<open>
  \<open>String.prototype.toLowerCase\<close> (ECMA-262): the string is read as code points, each is
  replaced by its lower-case mapping under the Unicode Default Case Conversion, and the
  result is encoded again.  The mapping of a code point is the simple mapping of
  UnicodeData, but for the two entries of SpecialCasing that apply without a locale:
  U+0130 becomes U+0069 U+0307, and capital sigma U+03A3 becomes the final sigma U+03C2
  where the condition Final_Sigma holds and U+03C3 elsewhere.  The Unicode tables (the
  simple mapping and the properties Cased and Case_Ignorable) are a parameter.
\<close>

record casing =
  simple_lower :: "nat \<Rightarrow> nat"
  cased :: "nat \<Rightarrow> bool"
  case_ignorable :: "nat \<Rightarrow> bool"

definition is_leading :: "jschar \<Rightarrow> bool" where
  "is_leading c \<longleftrightarrow> 0xD800 \<le> c \<and> c \<le> 0xDBFF"

definition is_trailing :: "jschar \<Rightarrow> bool" where
  "is_trailing c \<longleftrightarrow> 0xDC00 \<le> c \<and> c \<le> 0xDFFF"

fun StringToCodePoints :: "jsstring \<Rightarrow> nat list" where
  "StringToCodePoints (c # d # cs) =
     (if is_leading c \<and> is_trailing d
      then (0x10000 + (unat c - 0xD800) * 0x400 + (unat d - 0xDC00)) # StringToCodePoints cs
      else unat c # StringToCodePoints (d # cs))"
| "StringToCodePoints [c] = [unat c]"
| "StringToCodePoints [] = []"

definition UTF16EncodeCodePoint :: "nat \<Rightarrow> jsstring" where
  "UTF16EncodeCodePoint cp =
     (if cp \<le> 0xFFFF then [of_nat cp]
      else [of_nat ((cp - 0x10000) div 0x400 + 0xD800),
            of_nat ((cp - 0x10000) mod 0x400 + 0xDC00)])"

definition CodePointsToString :: "nat list \<Rightarrow> jsstring" where
  "CodePointsToString cps = concat (map UTF16EncodeCodePoint cps)"

text \<open>
  Going away from a position: zero or more case-ignorable code points, then a cased one.
\<close>

fun cased_next :: "casing \<Rightarrow> nat list \<Rightarrow> bool" where
  "cased_next T [] = False"
| "cased_next T (x # xs) = (cased T x \<or> (case_ignorable T x \<and> cased_next T xs))"

text \<open>
  Final_Sigma: such a sequence stands before the sigma and none after it.  \<open>before\<close> is
  the text before the sigma, nearest code point first.
\<close>

definition Final_Sigma :: "casing \<Rightarrow> nat list \<Rightarrow> nat list \<Rightarrow> bool" where
  "Final_Sigma T before after \<longleftrightarrow> cased_next T before \<and> \<not> cased_next T after"

definition lower_mapping :: "casing \<Rightarrow> nat list \<Rightarrow> nat \<Rightarrow> nat list \<Rightarrow> nat list" where
  "lower_mapping T before c after =
     (if c = 0x3A3 then (if Final_Sigma T before after then [0x3C2] else [0x3C3])
      else if c = 0x130 then [0x69, 0x307]
      else [simple_lower T c])"

fun lower_from :: "casing \<Rightarrow> nat list \<Rightarrow> nat list \<Rightarrow> nat list" where
  "lower_from T before [] = []"
| "lower_from T before (c # after) =
     lower_mapping T before c after @ lower_from T (c # before) after"

definition toLowerCase :: "casing \<Rightarrow> jsstring \<Rightarrow> jsstring" where
  "toLowerCase T s = CodePointsToString (lower_from T [] (StringToCodePoints s))"

definition truthy_bool :: "bool option \<Rightarrow> bool" where
  "truthy_bool b = (b = Some True)"

definition truthy_obj :: "'a option \<Rightarrow> bool" where
  "truthy_obj x = (x \<noteq> None)"

definition truthy_str :: "jsstring option \<Rightarrow> bool" where
  "truthy_str s = (case s of None \<Rightarrow> False | Some v \<Rightarrow> v \<noteq> [])"

section \<open>Data model\<close>

record account =
  id_field :: nat
  accountName :: jsstring
  issuer :: "jsstring option"
  secretKey :: jsstring
  changedAt :: int

text \<open>The object literal of line 151: the spread account with one more property.\<close>

record staged_account = account +
  oldAccountName :: jsstring

text \<open>
  What the hooks hand to one evaluation of \<open>HomePage\<close>: \<open>useNetInfo\<close> (line 58),
  \<open>useStore\<close> (63), \<open>useAccountSync\<close> (64) and \<open>useAccounts\<close> (65).  \<open>startSync\<close>
  is the identity of the function object, which is all the dependency array of line 106
  looks at.  React compares dependencies with \<open>Object.is\<close>: strings and booleans by
  value, objects by reference.  \<open>'u\<close> stands for the \<open>userInfo\<close> object, of which the
  component only tests the presence.  \<open>accounts\<close> is the contents of the array and
  \<open>accounts_ref\<close> names the array object: a later evaluation may receive another array
  with the same contents.  An array that has been handed out is not modified afterwards,
  so an array object is given by its reference together with its contents.
\<close>

record 'u props =
  isConnected :: "bool option"
  userInfo :: "'u option"
  serverUrl :: "jsstring option"
  token :: "jsstring option"
  startSync :: nat
  accounts :: "account list option"
  accounts_ref :: nat

text \<open>What \<open>Object.is\<close> compares of \<open>accounts\<close>: nothing for \<open>null\<close>, the object otherwise.\<close>

definition accounts_key :: "'u props \<Rightarrow> (nat \<times> account list) option" where
  "accounts_key p = (case accounts p of None \<Rightarrow> None | Some xs \<Rightarrow> Some (accounts_ref p, xs))"

text \<open>
  The \<open>useState\<close> cells of lines 48 to 61, in source order.  \<open>accountsVersion\<close> is a
  JavaScript number that only ever counts up from 0 in steps of 1; it is a natural number
  here (the two agree below \<open>2^53\<close>).
\<close>

record hstate =
  isPlusButton :: bool
  showOptions :: bool
  showEnterAccountModal :: bool
  searchQuery :: jsstring
  filteredData :: "account list option"
  showScanner :: bool
  showEditAccountModal :: bool
  editingAccount :: "account option"
  placeholder :: jsstring
  refreshing :: bool
  canSync :: bool
  accountsVersion :: nat

text \<open>Calls that leave the component, in the order they are made.\<close>

datatype notify_kind = Error_note | Success_note

datatype title = Literal string | Translated string

datatype 'd account_input = Single 'd | Batch "'d list"

datatype ('u, 'd) call =
    StartSync "'u option" "jsstring option" "jsstring option"
  | SetInterval nat nat
  | ClearInterval nat
  | RunAfterInteractions
  | Notify notify_kind title jsstring
  | SetAccountStaged staged_account
  | SetAccount 'd
  | UpdateAccount
  | InsertAccount
  | InsertAccounts "'d list"
  | DeleteAccount nat
  | ShowImportOptions

text \<open>An interval timer of line 98 with the variables its callback closes over.\<close>

record 'u timer =
  tid :: nat
  period :: nat
  closure :: "'u props"

text \<open>
  The mounted component: the state cells, the hook outputs of the latest evaluation
  (what the handlers of that evaluation close over), React's bookkeeping for the three
  effects (the dependencies of their last run and the clean-up function the third one
  returned), the host's timers and deferred tasks, the number of \<open>onRefresh\<close> calls
  suspended at their \<open>await\<close>, and the calls made so far.
\<close>

record ('u, 'd) component =
  hooks :: hstate
  rendered :: "'u props"
  deps_canSync :: "(bool option \<times> 'u option \<times> jsstring option) option"
  deps_accounts :: "(nat \<times> account list) option option"
  deps_sync :: "(nat \<times> bool \<times> jsstring option) option"
  cleanup_sync :: "nat option"
  timers :: "'u timer list"
  next_timer :: nat
  pending :: "'u props list"
  awaiting :: nat
  calls :: "('u, 'd) call list"

definition REFRESH_INTERVAL :: nat where
  "REFRESH_INTERVAL = 60000"

section \<open>Effects\<close>

definition sync_condition :: "'u props \<Rightarrow> bool" where
  "sync_condition p \<longleftrightarrow>
     truthy_bool (isConnected p) \<and> truthy_obj (userInfo p) \<and> truthy_str (serverUrl p)"

text \<open>Lines 84 to 86.\<close>

definition canSync_effect :: "'u props \<Rightarrow> ('u, 'd) component \<Rightarrow> ('u, 'd) component" where
  "canSync_effect p s =
     s\<lparr>hooks := (hooks s)\<lparr>canSync := sync_condition p\<rparr>,
       deps_canSync := Some (isConnected p, userInfo p, serverUrl p)\<rparr>"

text \<open>Lines 89 to 92.\<close>

definition accounts_effect :: "'u props \<Rightarrow> ('u, 'd) component \<Rightarrow> ('u, 'd) component" where
  "accounts_effect p s =
     s\<lparr>hooks := (hooks s)\<lparr>filteredData := accounts p,
                           accountsVersion := accountsVersion (hooks s) + 1\<rparr>,
       deps_accounts := Some (accounts_key p)\<rparr>"

text \<open>Line 104, the clean-up returned by the previous run of the third effect.\<close>

definition clearInterval :: "nat \<Rightarrow> ('u, 'd) component \<Rightarrow> ('u, 'd) component" where
  "clearInterval i s =
     s\<lparr>timers := filter (\<lambda>t. tid t \<noteq> i) (timers s), calls := calls s @ [ClearInterval i]\<rparr>"

definition sync_cleanup :: "('u, 'd) component \<Rightarrow> ('u, 'd) component" where
  "sync_cleanup s =
     (case cleanup_sync s of
        None \<Rightarrow> s
      | Some i \<Rightarrow> (clearInterval i s)\<lparr>cleanup_sync := None\<rparr>)"

text \<open>
  Lines 94 to 106.  The body reads \<open>canSync\<close>, \<open>userInfo\<close>, \<open>serverUrl\<close> and \<open>token\<close>
  of the evaluation that scheduled it: \<open>h\<close> is that evaluation's state, not the state
  the earlier effects of the same commit have written.
\<close>

definition sync_effect ::
  "'u props \<Rightarrow> hstate \<Rightarrow> ('u, 'd) component \<Rightarrow> ('u, 'd) component" where
  "sync_effect p h s =
     (if canSync h then
        s\<lparr>deps_sync := Some (startSync p, canSync h, token p),
          cleanup_sync := Some (next_timer s),
          timers := timers s @ [\<lparr>tid = next_timer s, period = REFRESH_INTERVAL, closure = p\<rparr>],
          next_timer := next_timer s + 1,
          calls := calls s @ [StartSync (userInfo p) (serverUrl p) (token p),
                               SetInterval (next_timer s) REFRESH_INTERVAL]\<rparr>
      else
        s\<lparr>deps_sync := Some (startSync p, canSync h, token p), cleanup_sync := None\<rparr>)"

text \<open>
  One evaluation of \<open>HomePage\<close> with hook outputs \<open>p\<close> followed by its commit: the
  clean-ups of the effects whose dependencies changed, then their bodies in source
  order.
\<close>

definition commit :: "'u props \<Rightarrow> ('u, 'd) component \<Rightarrow> ('u, 'd) component" where
  "commit p st =
     (let h = hooks st;
          r1 = (deps_canSync st \<noteq> Some (isConnected p, userInfo p, serverUrl p));
          r2 = (deps_accounts st \<noteq> Some (accounts_key p));
          r3 = (deps_sync st \<noteq> Some (startSync p, canSync h, token p));
          s0 = st\<lparr>rendered := p\<rparr>;
          s1 = (if r3 then sync_cleanup s0 else s0);
          s2 = (if r1 then canSync_effect p s1 else s1);
          s3 = (if r2 then accounts_effect p s2 else s2)
      in if r3 then sync_effect p h s3 else s3)"

text \<open>A state update made by an effect schedules another evaluation.\<close>

function settle :: "'u props \<Rightarrow> ('u, 'd) component \<Rightarrow> ('u, 'd) component" where
  "settle p st = (let st' = commit p st in if hooks st' = hooks st then st' else settle p st')"
  by pat_completeness auto
termination
proof (relation "measure (\<lambda>(p, st).
    if deps_canSync st = Some (isConnected p, userInfo p, serverUrl p)
       \<and> deps_accounts st = Some (accounts_key p) then 0 else 1)")
  show "wf (measure (\<lambda>(p, st).
    if deps_canSync st = Some (isConnected p, userInfo p, serverUrl p)
       \<and> deps_accounts st = Some (accounts_key p) then 0 else (1::nat)))"
    by simp
next
  fix p :: "'u props" and st x :: "('u, 'd) component"
  assume x: "x = commit p st" and ne: "hooks x \<noteq> hooks st"
  have stale: "\<not> (deps_canSync st = Some (isConnected p, userInfo p, serverUrl p)
       \<and> deps_accounts st = Some (accounts_key p))"
  proof
    assume "deps_canSync st = Some (isConnected p, userInfo p, serverUrl p)
       \<and> deps_accounts st = Some (accounts_key p)"
    then have "hooks (commit p st) = hooks st"
      by (simp add: commit_def Let_def sync_effect_def sync_cleanup_def clearInterval_def
          split: option.splits)
    then show False using x ne by simp
  qed
  have fresh: "deps_canSync (commit p st) = Some (isConnected p, userInfo p, serverUrl p)"
    "deps_accounts (commit p st) = Some (accounts_key p)"
    by (simp_all add: commit_def Let_def sync_effect_def canSync_effect_def accounts_effect_def
        sync_cleanup_def clearInterval_def split: option.splits)
  show "((p, x), (p, st)) \<in> measure (\<lambda>(p, st).
    if deps_canSync st = Some (isConnected p, userInfo p, serverUrl p)
       \<and> deps_accounts st = Some (accounts_key p) then 0 else 1)"
    using x stale fresh by simp
qed

declare settle.simps [simp del]

section \<open>Handlers\<close>

text \<open>
  Each handler is a function on the component.  It reads the state and the hook outputs of
  the latest evaluation, as the closure it was created in does.  Calls that only drive the
  presentation (the swipeable reference, navigation, the rendering of a row) are left out.
\<close>

text \<open>
  Modelled from the spec: \<open>startSync\<close> is defined in \<open>useAccountStore\<close>, which is not
  part of the sources at hand.  The spec has it report a failed attempt as the error
  message its promise resolves with, and resolve with nothing after a successful one.
  \<open>onRefresh\<close> has no \<open>try\<close> of its own, so the model also has the outcome the spec
  rules out: the promise is rejected, with a reason (given here by its message).
\<close>

datatype sync_outcome = Resolved "jsstring option" | Rejected jsstring

text \<open>Lines 108 to 111: \<open>onRefresh\<close> up to its \<open>await\<close>.\<close>

definition onRefresh_call :: "('u, 'd) component \<Rightarrow> ('u, 'd) component" where
  "onRefresh_call st =
     (if canSync (hooks st) then
        st\<lparr>hooks := (hooks st)\<lparr>refreshing := True\<rparr>,
           awaiting := awaiting st + 1,
           calls := calls st @ [StartSync (userInfo (rendered st)) (serverUrl (rendered st))
                                   (token (rendered st))]\<rparr>
      else st\<lparr>hooks := (hooks st)\<lparr>refreshing := False\<rparr>\<rparr>)"

text \<open>
  Lines 111 to 128: the rest of \<open>onRefresh\<close>, once the awaited promise has settled.  When
  it was rejected the \<open>await\<close> throws, nothing after it runs, and the promise of
  \<open>onRefresh\<close> is rejected with the same reason: the first component of the result.
\<close>

definition onRefresh_resume ::
  "sync_outcome \<Rightarrow> ('u, 'd) component \<Rightarrow> jsstring option \<times> ('u, 'd) component" where
  "onRefresh_resume outcome st =
     (case outcome of
        Rejected reason \<Rightarrow> (Some reason, st\<lparr>awaiting := awaiting st - 1\<rparr>)
      | Resolved syncError \<Rightarrow>
          (None,
           st\<lparr>hooks := (hooks st)\<lparr>refreshing := False\<rparr>,
              awaiting := awaiting st - 1,
              calls := calls st @
                [case syncError of
                   Some e \<Rightarrow>
                     if e \<noteq> [] then Notify Error_note (Literal ''Sync error'') e
                     else Notify Success_note (Literal ''Sync success'')
                            (js ''All your accounts are up to date.'')
                 | None \<Rightarrow> Notify Success_note (Literal ''Sync success'')
                            (js ''All your accounts are up to date.'')]\<rparr>))"

definition closeEnterAccountModal :: "('u, 'd) component \<Rightarrow> ('u, 'd) component" where
  "closeEnterAccountModal st = st\<lparr>hooks := (hooks st)\<lparr>showEnterAccountModal := False\<rparr>\<rparr>"

definition closeEditAccountModal :: "('u, 'd) component \<Rightarrow> ('u, 'd) component" where
  "closeEditAccountModal st = st\<lparr>hooks := (hooks st)\<lparr>showEditAccountModal := False\<rparr>\<rparr>"

text \<open>Lines 131 to 139.\<close>

definition handleAddAccount :: "'d account_input \<Rightarrow> ('u, 'd) component \<Rightarrow> ('u, 'd) component" where
  "handleAddAccount accountDataInput st =
     (case accountDataInput of
        Batch ds \<Rightarrow> st\<lparr>calls := calls st @ [InsertAccounts ds]\<rparr>
      | Single d \<Rightarrow> closeEnterAccountModal (st\<lparr>calls := calls st @ [SetAccount d, InsertAccount]\<rparr>))"

text \<open>Lines 142 to 147.\<close>

definition handleEditAccount :: "account \<Rightarrow> ('u, 'd) component \<Rightarrow> ('u, 'd) component" where
  "handleEditAccount a st =
     st\<lparr>hooks := (hooks st)\<lparr>editingAccount := Some a, placeholder := accountName a,
                             showEditAccountModal := True\<rparr>\<rparr>"

text \<open>Line 151: \<open>{...editingAccount, accountName: newAccountName, oldAccountName: ...}\<close>.\<close>

definition staged :: "account \<Rightarrow> jsstring \<Rightarrow> staged_account" where
  "staged a newAccountName =
     \<lparr>id_field = id_field a, accountName = newAccountName, issuer = issuer a,
      secretKey = secretKey a, changedAt = changedAt a, oldAccountName = accountName a\<rparr>"

text \<open>Lines 149 to 157.\<close>

definition onAccountEdit :: "jsstring \<Rightarrow> ('u, 'd) component \<Rightarrow> ('u, 'd) component" where
  "onAccountEdit newAccountName st =
     (case editingAccount (hooks st) of
        None \<Rightarrow> st
      | Some a \<Rightarrow>
          closeEditAccountModal
            (st\<lparr>hooks := (hooks st)\<lparr>placeholder := [], editingAccount := None\<rparr>,
                calls := calls st @ [SetAccountStaged (staged a newAccountName), UpdateAccount]\<rparr>))"

text \<open>Lines 159 to 161.\<close>

definition onAccountDelete :: "account \<Rightarrow> ('u, 'd) component \<Rightarrow> ('u, 'd) component" where
  "onAccountDelete a st = st\<lparr>calls := calls st @ [DeleteAccount (id_field a)]\<rparr>"

text \<open>Lines 165 to 204.\<close>

definition handleScanPress :: "('u, 'd) component \<Rightarrow> ('u, 'd) component" where
  "handleScanPress st =
     st\<lparr>hooks := (hooks st)\<lparr>showScanner := True, isPlusButton := True, showOptions := False\<rparr>\<rparr>"

definition handleCloseScanner :: "('u, 'd) component \<Rightarrow> ('u, 'd) component" where
  "handleCloseScanner st = st\<lparr>hooks := (hooks st)\<lparr>showScanner := False\<rparr>\<rparr>"

definition handleScanError :: "jsstring \<Rightarrow> ('u, 'd) component \<Rightarrow> ('u, 'd) component" where
  "handleScanError err st =
     st\<lparr>hooks := (hooks st)\<lparr>showScanner := False\<rparr>,
        calls := calls st @
          [Notify Error_note (Translated ''homepage.Error scanning QR code'') err]\<rparr>"

definition togglePlusButton :: "('u, 'd) component \<Rightarrow> ('u, 'd) component" where
  "togglePlusButton st =
     st\<lparr>hooks := (hooks st)\<lparr>isPlusButton := \<not> isPlusButton (hooks st),
                             showOptions := \<not> showOptions (hooks st)\<rparr>\<rparr>"

definition closeOptions :: "('u, 'd) component \<Rightarrow> ('u, 'd) component" where
  "closeOptions st =
     st\<lparr>hooks := (hooks st)\<lparr>isPlusButton := True, showOptions := False, showScanner := False\<rparr>\<rparr>"

definition openEnterAccountModal :: "('u, 'd) component \<Rightarrow> ('u, 'd) component" where
  "openEnterAccountModal st =
     closeOptions (st\<lparr>hooks := (hooks st)\<lparr>showEnterAccountModal := True\<rparr>\<rparr>)"

definition openImportAccountModal :: "('u, 'd) component \<Rightarrow> ('u, 'd) component" where
  "openImportAccountModal st = closeOptions (st\<lparr>calls := calls st @ [ShowImportOptions]\<rparr>)"

text \<open>The three callbacks handed to \<open>useImportManager\<close>, lines 69 to 80.\<close>

definition import_error :: "jsstring \<Rightarrow> ('u, 'd) component \<Rightarrow> ('u, 'd) component" where
  "import_error message st =
     st\<lparr>calls := calls st @ [Notify Error_note (Translated ''homepage.Import error'') message]\<rparr>"

definition import_scan :: "('u, 'd) component \<Rightarrow> ('u, 'd) component" where
  "import_scan st = st\<lparr>hooks := (hooks st)\<lparr>showScanner := True\<rparr>\<rparr>"

text \<open>
  Lines 213 to 219.  The handler takes the function it lower-cases with as the parameter
  \<open>lc\<close>; in the engine that is \<open>toLowerCase T\<close> for the Unicode tables \<open>T\<close>.
  \<open>accounts && accounts.filter(...)\<close> is \<open>accounts\<close> itself when that is \<open>null\<close> or
  \<open>undefined\<close>.
\<close>

definition handleSearch ::
  "(jsstring \<Rightarrow> jsstring) \<Rightarrow> jsstring \<Rightarrow> ('u, 'd) component \<Rightarrow> ('u, 'd) component" where
  "handleSearch lc query st =
     st\<lparr>hooks := (hooks st)
        \<lparr>searchQuery := query,
         filteredData :=
           (if trim query \<noteq> [] then
              (case accounts (rendered st) of
                 None \<Rightarrow> None
               | Some items \<Rightarrow>
                   Some (filter (\<lambda>item. includes_js (lc (accountName item)) (lc query)) items))
            else accounts (rendered st))\<rparr>\<rparr>"

text \<open>Lines 336 to 343: the countdown's \<open>onComplete\<close> and the object it returns.\<close>

record repeat_options =
  shouldRepeat :: bool
  delay :: nat
  newInitialRemainingTime :: nat

definition onComplete :: "nat \<Rightarrow> ('u, 'd) component \<Rightarrow> ('u, 'd) component \<times> repeat_options" where
  "onComplete timeRemaining st =
     (st, \<lparr>shouldRepeat = True, delay = 0, newInitialRemainingTime = timeRemaining\<rparr>)"

text \<open>Lines 98 to 102: the interval callback, and the task it defers.\<close>

definition interval_fires :: "nat \<Rightarrow> ('u, 'd) component \<Rightarrow> ('u, 'd) component" where
  "interval_fires i st =
     (case find (\<lambda>t. tid t = i) (timers st) of
        None \<Rightarrow> st
      | Some t \<Rightarrow> st\<lparr>pending := pending st @ [closure t],
                     calls := calls st @ [RunAfterInteractions]\<rparr>)"

definition interactions_done :: "('u, 'd) component \<Rightarrow> ('u, 'd) component" where
  "interactions_done st =
     (case pending st of
        [] \<Rightarrow> st
      | c # cs \<Rightarrow> st\<lparr>pending := cs,
                      calls := calls st @ [StartSync (userInfo c) (serverUrl c) (token c)]\<rparr>)"

text \<open>Lines 364 and 366: the \<open>data\<close> and \<open>extraData\<close> properties of the list.\<close>

definition list_data :: "('u, 'd) component \<Rightarrow> account list option" where
  "list_data st =
     (if trim (searchQuery (hooks st)) \<noteq> [] then filteredData (hooks st)
      else accounts (rendered st))"


section \<open>The component as a transition system\<close>

datatype ('u, 'd) event =
    Render "'u props"
  | IntervalFires nat
  | InteractionsDone
  | PullToRefresh
  | SyncSettled sync_outcome
  | Search jsstring
  | EditPressed account
  | EditSubmitted jsstring
  | EditClosed
  | DeletePressed account
  | AccountAdded "'d account_input"
  | EnterClosed
  | ImportFailed jsstring
  | ImportScan
  | ScanPressed
  | ScannerClosed
  | ScanFailed jsstring
  | FabPressed
  | OptionsDismissed
  | EnterManually
  | ImportPressed
  | CountdownComplete nat

fun handle ::
  "(jsstring \<Rightarrow> jsstring) \<Rightarrow> ('u, 'd) event \<Rightarrow> ('u, 'd) component \<Rightarrow> ('u, 'd) component" where
  "handle lc (Render p) st = st"
| "handle lc (IntervalFires i) st = interval_fires i st"
| "handle lc InteractionsDone st = interactions_done st"
| "handle lc PullToRefresh st = onRefresh_call st"
| "handle lc (SyncSettled r) st = (if 0 < awaiting st then snd (onRefresh_resume r st) else st)"
| "handle lc (Search q) st = handleSearch lc q st"
| "handle lc (EditPressed a) st = handleEditAccount a st"
| "handle lc (EditSubmitted n) st = onAccountEdit n st"
| "handle lc EditClosed st = closeEditAccountModal st"
| "handle lc (DeletePressed a) st = onAccountDelete a st"
| "handle lc (AccountAdded d) st = handleAddAccount d st"
| "handle lc EnterClosed st = closeEnterAccountModal st"
| "handle lc (ImportFailed m) st = import_error m st"
| "handle lc ImportScan st = import_scan st"
| "handle lc ScanPressed st = handleScanPress st"
| "handle lc ScannerClosed st = handleCloseScanner st"
| "handle lc (ScanFailed m) st = handleScanError m st"
| "handle lc FabPressed st = togglePlusButton st"
| "handle lc OptionsDismissed st = closeOptions st"
| "handle lc EnterManually st = openEnterAccountModal st"
| "handle lc ImportPressed st = openImportAccountModal st"
| "handle lc (CountdownComplete n) st = fst (onComplete n st)"

fun next_props :: "('u, 'd) event \<Rightarrow> ('u, 'd) component \<Rightarrow> 'u props" where
  "next_props (Render p) st = p"
| "next_props e st = rendered st"

text \<open>An event runs its handler; the component is then evaluated again until it settles.\<close>

definition step ::
  "(jsstring \<Rightarrow> jsstring) \<Rightarrow> ('u, 'd) event \<Rightarrow> ('u, 'd) component \<Rightarrow> ('u, 'd) component" where
  "step lc e st = settle (next_props e st) (handle lc e st)"

section \<open>The first evaluation\<close>

text \<open>
  The file uses \<open>FAB\<close> (line 436), \<open>Scanner\<close> (443) and \<open>StyleSheet\<close> (468) without
  importing them; the model takes them as provided by the environment and follows the
  state of the component only.
\<close>

text \<open>
  The \<open>const\<close> declarations of lines 48 to 81 in source order: the line, the local
  identifiers its initialiser reads when it is evaluated (bodies of arrow functions are
  not evaluated there), and the identifiers it declares.
\<close>

definition HomePage_consts :: "(nat \<times> string list \<times> string list) list" where
  "HomePage_consts =
     [(48, [], [''isPlusButton'', ''setIsPlusButton'']),
      (49, [], [''showOptions'', ''setShowOptions'']),
      (50, [], [''showEnterAccountModal'', ''setShowEnterAccountModal'']),
      (51, [], [''searchQuery'', ''setSearchQuery'']),
      (52, [''accounts''], [''filteredData'', ''setFilteredData'']),
      (53, [], [''showScanner'', ''setShowScanner'']),
      (54, [], [''showEditAccountModal'', ''setShowEditAccountModal'']),
      (55, [], [''editingAccount'', ''setEditingAccount'']),
      (56, [], [''placeholder'', ''setPlaceholder'']),
      (57, [], [''refreshing'', ''setRefreshing'']),
      (58, [], [''isConnected'']),
      (59, [], [''canSync'', ''setCanSync'']),
      (61, [], [''accountsVersion'', ''setAccountsVersion'']),
      (62, [], [''swipeableRef'']),
      (63, [], [''userInfo'', ''serverUrl'', ''token'']),
      (64, [], [''startSync'']),
      (65, [], [''accounts'']),
      (66, [], [''setAccount'', ''updateAccount'', ''insertAccount'', ''insertAccounts'',
                ''deleteAccount'']),
      (67, [], [''notify'']),
      (68, [], [''t'']),
      (69, [], [''showImportOptions'']),
      (81, [], [''navigation''])]"

text \<open>
  The reads of a local binding that happen before its declaration has been evaluated:
  \<open>locals\<close> are the identifiers the body declares, \<open>done\<close> those already initialised.
\<close>

fun early_reads ::
  "string list \<Rightarrow> string list \<Rightarrow> (nat \<times> string list \<times> string list) list \<Rightarrow> (nat \<times> string) list" where
  "early_reads locals done [] = []"
| "early_reads locals done ((l, rs, bs) # rest) =
     map (Pair l) (filter (\<lambda>x. x \<in> set locals \<and> x \<notin> set done) rs)
       @ early_reads locals (done @ bs) rest"

definition uninitialised_reads :: "(nat \<times> string list \<times> string list) list \<Rightarrow> (nat \<times> string) list" where
  "uninitialised_reads body = early_reads (concat (map (\<lambda>(l, rs, bs). bs) body)) [] body"

definition declared_at :: "string \<Rightarrow> (nat \<times> string list \<times> string list) list \<Rightarrow> nat list" where
  "declared_at x body = map fst (filter (\<lambda>(l, rs, bs). x \<in> set bs) body)"

text \<open>
  A \<open>const\<close> read before its declaration raises a ReferenceError in an engine that
  keeps block scoping; where the tool chain has compiled \<open>const\<close> to \<open>var\<close> the read
  gives \<open>undefined\<close>.
\<close>

datatype scoping = BlockScoped | Hoisted

datatype js_error = ReferenceError string

text \<open>Line 52: the argument of \<open>useState(accounts)\<close>.\<close>

definition useState_accounts :: "scoping \<Rightarrow> 'u props \<Rightarrow> js_error + account list option" where
  "useState_accounts sc p =
     (if (52, ''accounts'') \<in> set (uninitialised_reads HomePage_consts) then
        (case sc of BlockScoped \<Rightarrow> Inl (ReferenceError ''accounts'') | Hoisted \<Rightarrow> Inr None)
      else Inr (accounts p))"

definition initial :: "account list option \<Rightarrow> 'u props \<Rightarrow> ('u, 'd) component" where
  "initial fd p =
     \<lparr>hooks = \<lparr>isPlusButton = True, showOptions = False, showEnterAccountModal = False,
               searchQuery = [], filteredData = fd, showScanner = False,
               showEditAccountModal = False, editingAccount = None, placeholder = [],
               refreshing = False, canSync = False, accountsVersion = 0\<rparr>,
      rendered = p, deps_canSync = None, deps_accounts = None, deps_sync = None,
      cleanup_sync = None, timers = [], next_timer = 0, pending = [], awaiting = 0,
      calls = []\<rparr>"

definition mount :: "scoping \<Rightarrow> 'u props \<Rightarrow> js_error + ('u, 'd) component" where
  "mount sc p =
     (case useState_accounts sc p of
        Inl e \<Rightarrow> Inl e
      | Inr fd \<Rightarrow> Inr (settle p (initial fd p)))"

inductive reachable :: "(jsstring \<Rightarrow> jsstring) \<Rightarrow> ('u, 'd) component \<Rightarrow> bool"
  for lc :: "jsstring \<Rightarrow> jsstring" where
  mounted: "mount sc p = Inr st \<Longrightarrow> reachable lc st"
| stepped: "reachable lc st \<Longrightarrow> reachable lc (step lc e st)"

section \<open>Invariants of the effects' bookkeeping\<close>

text \<open>
  The third effect owns at most one timer: the one its pending clean-up will clear.
\<close>

definition timers_ok :: "('u, 'd) component \<Rightarrow> bool" where
  "timers_ok st \<longleftrightarrow>
     (case cleanup_sync st of
        None \<Rightarrow> timers st = []
      | Some i \<Rightarrow> i < next_timer st \<and>
          (case timers st of [t] \<Rightarrow> tid t = i \<and> period t = REFRESH_INTERVAL | _ \<Rightarrow> False))"

text \<open>
  What every commit keeps: \<open>canSync\<close> is the condition of the dependencies the first
  effect last saw, and the third effect left a clean-up exactly when it ran with
  \<open>canSync\<close> set.
\<close>

definition coherent :: "('u, 'd) component \<Rightarrow> bool" where
  "coherent st \<longleftrightarrow>
     timers_ok st \<and>
     (case deps_canSync st of
        None \<Rightarrow> True
      | Some (c, u, s) \<Rightarrow> canSync (hooks st) = (truthy_bool c \<and> truthy_obj u \<and> truthy_str s)) \<and>
     (case deps_sync st of
        None \<Rightarrow> cleanup_sync st = None
      | Some (f, c, k) \<Rightarrow> c = (cleanup_sync st \<noteq> None))"

text \<open>A state in which no effect is due: all three dependency arrays are up to date.\<close>

definition settled :: "('u, 'd) component \<Rightarrow> bool" where
  "settled st \<longleftrightarrow>
     coherent st \<and>
     deps_canSync st = Some (isConnected (rendered st), userInfo (rendered st), serverUrl (rendered st)) \<and>
     deps_accounts st = Some (accounts_key (rendered st)) \<and>
     deps_sync st = Some (startSync (rendered st), canSync (hooks st), token (rendered st))"

text \<open>
  What the callback of a timer closes over: the hook outputs of the commit that set it.
  \<open>fresh_closures\<close> relates them to the dependencies the third effect last saw,
  \<open>closures_ok\<close> to the latest evaluation.
\<close>

definition fresh_closures :: "('u, 'd) component \<Rightarrow> bool" where
  "fresh_closures st \<longleftrightarrow>
     list_all (\<lambda>t. sync_condition (closure t)) (timers st) \<and>
     (case deps_sync st of
        None \<Rightarrow> True
      | Some (f, c, k) \<Rightarrow>
          list_all (\<lambda>t. startSync (closure t) = f \<and> token (closure t) = k) (timers st))"

definition closures_ok :: "('u, 'd) component \<Rightarrow> bool" where
  "closures_ok st \<longleftrightarrow>
     list_all (\<lambda>t. sync_condition (closure t)
                  \<and> startSync (closure t) = startSync (rendered st)
                  \<and> token (closure t) = token (rendered st)) (timers st)"

section \<open>The search contract in the words of the specification\<close>

text \<open>
  Two strings are the same but for case when they have the same length and, place by
  place, code units with the same simple lower-case mapping.  The name contains the query
  as a case-insensitive substring when some contiguous part of the name is the same as
  the query but for case.
\<close>

definition lower_unit :: "casing \<Rightarrow> jschar \<Rightarrow> jschar" where
  "lower_unit T c = of_nat (simple_lower T (unat c))"

definition same_ignoring_case :: "casing \<Rightarrow> jsstring \<Rightarrow> jsstring \<Rightarrow> bool" where
  "same_ignoring_case T u v \<longleftrightarrow> map (lower_unit T) u = map (lower_unit T) v"

definition ci_substring :: "casing \<Rightarrow> jsstring \<Rightarrow> jsstring \<Rightarrow> bool" where
  "ci_substring T query name \<longleftrightarrow> (\<exists>u. sublist u name \<and> same_ignoring_case T u query)"

text \<open>
  Text on which \<open>toLowerCase\<close> works code unit by code unit: no leading surrogate, no
  capital sigma, no U+0130, and lower-case mappings that fit one code unit.
\<close>

definition plain :: "casing \<Rightarrow> jsstring \<Rightarrow> bool" where
  "plain T s \<longleftrightarrow>
     list_all (\<lambda>c. \<not> is_leading c \<and> c \<noteq> 0x3A3 \<and> c \<noteq> 0x130
                  \<and> simple_lower T (unat c) \<le> 0xFFFF) s"

section \<open>Sample inputs\<close>

text \<open>Case folding on the ASCII letters, used where a concrete instance is evaluated.\<close>

definition ascii_lower :: "jsstring \<Rightarrow> jsstring" where
  "ascii_lower s = map (\<lambda>c. if 0x41 \<le> c \<and> c \<le> 0x5A then c + 0x20 else c) s"

text \<open>
  The rows of the Unicode tables for the Basic Latin and Greek letters and for the
  case-ignorable marks of Basic Latin and Latin-1; other code points are taken as
  uncased.
\<close>

definition latin_greek :: casing where
  "latin_greek =
     \<lparr>simple_lower = (\<lambda>c. if (0x41 \<le> c \<and> c \<le> 0x5A) \<or> (0x391 \<le> c \<and> c \<le> 0x3A1)
                               \<or> (0x3A3 \<le> c \<and> c \<le> 0x3A9) then c + 0x20 else c),
      cased = (\<lambda>c. (0x41 \<le> c \<and> c \<le> 0x5A) \<or> (0x61 \<le> c \<and> c \<le> 0x7A)
                     \<or> (0x391 \<le> c \<and> c \<le> 0x3A1) \<or> (0x3A3 \<le> c \<and> c \<le> 0x3A9)
                     \<or> (0x3B1 \<le> c \<and> c \<le> 0x3C9)),
      case_ignorable = (\<lambda>c. c = 0x27 \<or> c = 0x2E \<or> c = 0x3A \<or> c = 0x5E \<or> c = 0x60
                              \<or> c = 0xA8 \<or> c = 0xAD \<or> c = 0xAF \<or> c = 0xB4 \<or> c = 0xB7
                              \<or> c = 0xB8)\<rparr>"

text \<open>An account named with the Greek word of the letters U+039F U+0394 U+039F U+03A3.\<close>

definition odos :: account where
  "odos = \<lparr>id_field = 3, accountName = [0x39F, 0x394, 0x39F, 0x3A3], issuer = None,
           secretKey = js ''MFRGGZDFMZTWQ2LK'', changedAt = 9\<rparr>"

definition greek_names :: "nat props" where
  "greek_names = \<lparr>isConnected = Some False, userInfo = None, serverUrl = None, token = None,
                   startSync = 0, accounts = Some [odos], accounts_ref = 4\<rparr>"

definition greek_home :: "(nat, unit) component" where
  "greek_home = settle greek_names (initial None greek_names)"

definition alice :: account where
  "alice = \<lparr>id_field = 1, accountName = js ''Alice@GitHub'', issuer = Some (js ''GitHub''),
            secretKey = js ''JBSWY3DPEHPK3PXP'', changedAt = 0\<rparr>"

definition bob :: account where
  "bob = \<lparr>id_field = 2, accountName = js ''bob'', issuer = None,
          secretKey = js ''GEZDGNBVGY3TQOJQ'', changedAt = 5\<rparr>"

definition signed_in :: "nat props" where
  "signed_in = \<lparr>isConnected = Some True, userInfo = Some 7, serverUrl = Some (js ''https://door''),
                 token = Some (js ''t1''), startSync = 0, accounts = Some [alice, bob], accounts_ref = 1\<rparr>"

definition signed_out :: "nat props" where
  "signed_out = \<lparr>isConnected = Some True, userInfo = None, serverUrl = None,
                  token = None, startSync = 0, accounts = Some [alice, bob], accounts_ref = 1\<rparr>"

definition fewer :: "nat props" where
  "fewer = \<lparr>isConnected = Some True, userInfo = Some 7, serverUrl = Some (js ''https://door''),
             token = Some (js ''t1''), startSync = 0, accounts = Some [alice], accounts_ref = 2\<rparr>"

definition other_user :: "nat props" where
  "other_user = \<lparr>isConnected = Some True, userInfo = Some 8, serverUrl = Some (js ''https://door''),
                  token = Some (js ''t1''), startSync = 0, accounts = Some [alice, bob], accounts_ref = 1\<rparr>"


definition home :: "(nat, unit) component" where
  "home = settle signed_in (initial None signed_in)"

definition away :: "(nat, unit) component" where
  "away = settle signed_out (initial None signed_out)"

definition searching :: "(nat, unit) component" where
  "searching = step ascii_lower (Search (js ''bob'')) home"

section \<open>One commit\<close>

lemma accounts_key_eq: "accounts_key p = accounts_key q \<Longrightarrow> accounts p = accounts q"
  by (auto simp: accounts_key_def split: option.splits)

lemma commit_deps:
  "deps_canSync (commit p st) = Some (isConnected p, userInfo p, serverUrl p)"
  "deps_accounts (commit p st) = Some (accounts_key p)"
  by (simp_all add: commit_def Let_def sync_effect_def canSync_effect_def accounts_effect_def
      sync_cleanup_def clearInterval_def split: option.splits)

lemma commit_hooks_same:
  assumes "deps_canSync st = Some (isConnected p, userInfo p, serverUrl p)"
    and "deps_accounts st = Some (accounts_key p)"
  shows "hooks (commit p st) = hooks st"
  using assms
  by (simp add: commit_def Let_def sync_effect_def sync_cleanup_def clearInterval_def
      split: option.splits)

lemma timers_ok_cleanup: "timers_ok st \<Longrightarrow> timers_ok (sync_cleanup st) \<and> timers (sync_cleanup st) = [] \<and> cleanup_sync (sync_cleanup st) = None"
  by (auto simp: timers_ok_def sync_cleanup_def clearInterval_def split: option.splits list.splits)

lemma sync_cleanup_fields [simp]:
  "hooks (sync_cleanup s) = hooks s" "rendered (sync_cleanup s) = rendered s"
  "deps_canSync (sync_cleanup s) = deps_canSync s" "deps_accounts (sync_cleanup s) = deps_accounts s"
  "deps_sync (sync_cleanup s) = deps_sync s" "next_timer (sync_cleanup s) = next_timer s"
  "pending (sync_cleanup s) = pending s" "awaiting (sync_cleanup s) = awaiting s"
  "cleanup_sync (sync_cleanup s) = None"
  by (simp_all add: sync_cleanup_def clearInterval_def split: option.splits)

lemma canSync_effect_fields [simp]:
  "hooks (canSync_effect p s) = (hooks s)\<lparr>canSync := sync_condition p\<rparr>"
  "rendered (canSync_effect p s) = rendered s"
  "deps_canSync (canSync_effect p s) = Some (isConnected p, userInfo p, serverUrl p)"
  "deps_accounts (canSync_effect p s) = deps_accounts s"
  "deps_sync (canSync_effect p s) = deps_sync s" "next_timer (canSync_effect p s) = next_timer s"
  "pending (canSync_effect p s) = pending s" "awaiting (canSync_effect p s) = awaiting s"
  "cleanup_sync (canSync_effect p s) = cleanup_sync s" "timers (canSync_effect p s) = timers s"
  "calls (canSync_effect p s) = calls s"
  by (simp_all add: canSync_effect_def)

lemma accounts_effect_fields [simp]:
  "hooks (accounts_effect p s) =
     (hooks s)\<lparr>filteredData := accounts p, accountsVersion := accountsVersion (hooks s) + 1\<rparr>"
  "rendered (accounts_effect p s) = rendered s"
  "deps_canSync (accounts_effect p s) = deps_canSync s"
  "deps_accounts (accounts_effect p s) = Some (accounts_key p)"
  "deps_sync (accounts_effect p s) = deps_sync s" "next_timer (accounts_effect p s) = next_timer s"
  "pending (accounts_effect p s) = pending s" "awaiting (accounts_effect p s) = awaiting s"
  "cleanup_sync (accounts_effect p s) = cleanup_sync s" "timers (accounts_effect p s) = timers s"
  "calls (accounts_effect p s) = calls s"
  by (simp_all add: accounts_effect_def)

lemma sync_effect_fields [simp]:
  "hooks (sync_effect p h s) = hooks s" "rendered (sync_effect p h s) = rendered s"
  "deps_canSync (sync_effect p h s) = deps_canSync s"
  "deps_accounts (sync_effect p h s) = deps_accounts s"
  "deps_sync (sync_effect p h s) = Some (startSync p, canSync h, token p)"
  "pending (sync_effect p h s) = pending s" "awaiting (sync_effect p h s) = awaiting s"
  by (simp_all add: sync_effect_def)

lemma timers_ok_frame:
  "timers s' = timers s \<Longrightarrow> cleanup_sync s' = cleanup_sync s \<Longrightarrow> next_timer s' = next_timer s
   \<Longrightarrow> timers_ok s' = timers_ok s"
  by (simp add: timers_ok_def cong: option.case_cong list.case_cong)

lemma sync_effect_more [simp]:
  "cleanup_sync (sync_effect p h s) = (if canSync h then Some (next_timer s) else None)"
  "timers (sync_effect p h s) =
     (if canSync h then timers s @ [\<lparr>tid = next_timer s, period = REFRESH_INTERVAL, closure = p\<rparr>]
      else timers s)"
  "next_timer (sync_effect p h s) = (if canSync h then next_timer s + 1 else next_timer s)"
  "calls (sync_effect p h s) =
     (if canSync h then calls s @ [StartSync (userInfo p) (serverUrl p) (token p),
                                   SetInterval (next_timer s) REFRESH_INTERVAL]
      else calls s)"
  by (simp_all add: sync_effect_def)

lemma sync_cleanup_more:
  "timers (sync_cleanup s) =
     (case cleanup_sync s of None \<Rightarrow> timers s | Some i \<Rightarrow> filter (\<lambda>t. tid t \<noteq> i) (timers s))"
  "calls (sync_cleanup s) =
     (case cleanup_sync s of None \<Rightarrow> calls s | Some i \<Rightarrow> calls s @ [ClearInterval i])"
  by (simp_all add: sync_cleanup_def clearInterval_def split: option.splits)

lemma timers_ok_cleanup_timers: "timers_ok s \<Longrightarrow> timers (sync_cleanup s) = []"
  by (auto simp: timers_ok_def sync_cleanup_more split: option.splits list.splits)

lemma commit_rendered: "rendered (commit p st) = p"
  by (simp add: commit_def Let_def)

lemma commit_hooks:
  "hooks (commit p st) =
     (hooks st)
       \<lparr>canSync := (if deps_canSync st \<noteq> Some (isConnected p, userInfo p, serverUrl p)
                    then sync_condition p else canSync (hooks st)),
        filteredData := (if deps_accounts st \<noteq> Some (accounts_key p) then accounts p
                         else filteredData (hooks st)),
        accountsVersion := (if deps_accounts st \<noteq> Some (accounts_key p)
                            then accountsVersion (hooks st) + 1 else accountsVersion (hooks st))\<rparr>"
  by (simp add: commit_def Let_def)

lemma commit_deps_sync:
  "deps_sync (commit p st) = Some (startSync p, canSync (hooks st), token p)"
  by (simp add: commit_def Let_def)

lemma commit_frame: "pending (commit p st) = pending st" "awaiting (commit p st) = awaiting st"
  by (simp_all add: commit_def Let_def)

lemma commit_timers_keep:
  assumes "deps_sync st = Some (startSync p, canSync (hooks st), token p)"
  shows "timers (commit p st) = timers st" "cleanup_sync (commit p st) = cleanup_sync st"
    "next_timer (commit p st) = next_timer st" "calls (commit p st) = calls st"
  using assms by (simp_all add: commit_def Let_def)

lemma commit_timers_rerun:
  assumes "deps_sync st \<noteq> Some (startSync p, canSync (hooks st), token p)" and "timers_ok st"
  shows "timers (commit p st) =
           (if canSync (hooks st)
            then [\<lparr>tid = next_timer st, period = REFRESH_INTERVAL, closure = p\<rparr>] else [])"
    and "cleanup_sync (commit p st) = (if canSync (hooks st) then Some (next_timer st) else None)"
    and "next_timer (commit p st) = (if canSync (hooks st) then next_timer st + 1 else next_timer st)"
    and "calls (commit p st) =
           calls st @ (case cleanup_sync st of None \<Rightarrow> [] | Some i \<Rightarrow> [ClearInterval i])
             @ (if canSync (hooks st)
                then [StartSync (userInfo p) (serverUrl p) (token p),
                      SetInterval (next_timer st) REFRESH_INTERVAL] else [])"
proof -
  define s1 where "s1 = sync_cleanup (st\<lparr>rendered := p\<rparr>)"
  define s3 where "s3 =
     (let s2 = (if deps_canSync st \<noteq> Some (isConnected p, userInfo p, serverUrl p)
                then canSync_effect p s1 else s1)
      in if deps_accounts st \<noteq> Some (accounts_key p) then accounts_effect p s2 else s2)"
  have c: "commit p st = sync_effect p (hooks st) s3"
    using assms(1) by (simp add: commit_def Let_def s3_def s1_def)
  have "timers_ok (st\<lparr>rendered := p\<rparr>)"
    using assms(2) timers_ok_frame [of "st\<lparr>rendered := p\<rparr>" st] by simp
  then have t1: "timers s1 = []"
    unfolding s1_def by (rule timers_ok_cleanup_timers)
  have f: "timers s3 = timers s1" "next_timer s3 = next_timer st" "calls s3 = calls s1"
    by (simp_all add: s3_def s1_def Let_def)
  have c1: "calls s1 = calls st @ (case cleanup_sync st of None \<Rightarrow> [] | Some i \<Rightarrow> [ClearInterval i])"
    by (simp add: s1_def sync_cleanup_more split: option.splits)
  show "timers (commit p st) =
           (if canSync (hooks st)
            then [\<lparr>tid = next_timer st, period = REFRESH_INTERVAL, closure = p\<rparr>] else [])"
    by (simp add: c f t1)
  show "cleanup_sync (commit p st) = (if canSync (hooks st) then Some (next_timer st) else None)"
    by (simp add: c f)
  show "next_timer (commit p st) = (if canSync (hooks st) then next_timer st + 1 else next_timer st)"
    by (simp add: c f)
  show "calls (commit p st) =
           calls st @ (case cleanup_sync st of None \<Rightarrow> [] | Some i \<Rightarrow> [ClearInterval i])
             @ (if canSync (hooks st)
                then [StartSync (userInfo p) (serverUrl p) (token p),
                      SetInterval (next_timer st) REFRESH_INTERVAL] else [])"
    by (simp add: c f c1)
qed

lemma timers_ok_commit: "timers_ok st \<Longrightarrow> timers_ok (commit p st)"
proof (cases "deps_sync st = Some (startSync p, canSync (hooks st), token p)")
  case True
  assume "timers_ok st"
  then show ?thesis
    using commit_timers_keep [OF True] timers_ok_frame [of "commit p st" st] by simp
next
  case False
  assume "timers_ok st"
  then show ?thesis using commit_timers_rerun [OF False] by (simp add: timers_ok_def)
qed

lemma coherent_commit:
  assumes "coherent st"
  shows "coherent (commit p st)"
proof -
  have t: "timers_ok st" using assms by (simp add: coherent_def)
  have 1: "timers_ok (commit p st)" using t by (rule timers_ok_commit)
  have 2: "canSync (hooks (commit p st)) =
             (truthy_bool (isConnected p) \<and> truthy_obj (userInfo p) \<and> truthy_str (serverUrl p))"
    using assms by (auto simp: coherent_def commit_hooks sync_condition_def)
  have 3: "canSync (hooks st) = (cleanup_sync (commit p st) \<noteq> None)"
  proof (cases "deps_sync st = Some (startSync p, canSync (hooks st), token p)")
    case True
    then show ?thesis using assms commit_timers_keep(2) [OF True] by (simp add: coherent_def)
  next
    case False
    then show ?thesis using commit_timers_rerun(2) [OF False t] by simp
  qed
  show ?thesis
    using 1 2 3 by (simp add: coherent_def commit_deps commit_deps_sync)
qed

lemma commit_new_timers:
  assumes "timers_ok st"
  shows "next_timer st \<le> next_timer (commit p st)"
    and "\<forall>t\<in>set (timers (commit p st)). t \<in> set (timers st) \<or> next_timer st \<le> tid t"
    and "deps_sync st \<noteq> Some (startSync p, canSync (hooks st), token p)
         \<Longrightarrow> \<forall>t\<in>set (timers (commit p st)). next_timer st \<le> tid t"
    and "deps_sync st \<noteq> Some (startSync p, canSync (hooks st), token p)
         \<Longrightarrow> \<forall>t\<in>set (timers st). ClearInterval (tid t) \<in> set (calls (commit p st))"
    and "set (calls st) \<subseteq> set (calls (commit p st))"
proof -
  show "next_timer st \<le> next_timer (commit p st)"
    using commit_timers_keep(3) [of st p] commit_timers_rerun(3) [of st p] assms
    by (cases "deps_sync st = Some (startSync p, canSync (hooks st), token p)") simp_all
  show "\<forall>t\<in>set (timers (commit p st)). t \<in> set (timers st) \<or> next_timer st \<le> tid t"
    using commit_timers_keep(1) [of st p] commit_timers_rerun(1) [of st p] assms
    by (cases "deps_sync st = Some (startSync p, canSync (hooks st), token p)") simp_all
  show "deps_sync st \<noteq> Some (startSync p, canSync (hooks st), token p)
         \<Longrightarrow> \<forall>t\<in>set (timers (commit p st)). next_timer st \<le> tid t"
    using commit_timers_rerun(1) [of st p] assms by simp
  show "deps_sync st \<noteq> Some (startSync p, canSync (hooks st), token p)
         \<Longrightarrow> \<forall>t\<in>set (timers st). ClearInterval (tid t) \<in> set (calls (commit p st))"
    using commit_timers_rerun(4) [of st p] assms
    by (auto simp: timers_ok_def split: option.splits list.splits)
  show "set (calls st) \<subseteq> set (calls (commit p st))"
    using commit_timers_keep(4) [of st p] commit_timers_rerun(4) [of st p] assms
    by (cases "deps_sync st = Some (startSync p, canSync (hooks st), token p)") auto
qed

lemma old_timers_below: "timers_ok st \<Longrightarrow> \<forall>t\<in>set (timers st). tid t < next_timer st"
  by (auto simp: timers_ok_def split: option.splits list.splits)

lemma fresh_disjoint:
  assumes "\<forall>t\<in>set new. n \<le> tid t" and "\<forall>t\<in>set old. tid t < n"
  shows "\<forall>t\<in>set old. tid t \<notin> tid ` set new"
proof
  fix t assume o: "t \<in> set old"
  show "tid t \<notin> tid ` set new"
  proof
    assume "tid t \<in> tid ` set new"
    then obtain u where u: "u \<in> set new" "tid u = tid t" by auto
    then have "n \<le> tid t" using assms(1) by auto
    then show False using assms(2) o by auto
  qed
qed

section \<open>Settling\<close>

lemma settle_two:
  "settle p st = (if hooks (commit p st) = hooks st then commit p st else commit p (commit p st))"
proof -
  have "hooks (commit p (commit p st)) = hooks (commit p st)"
    by (rule commit_hooks_same) (simp_all add: commit_deps)
  then show ?thesis
    using settle.simps [of p st] settle.simps [of p "commit p st"] by (simp add: Let_def)
qed

lemma hooks_settle: "hooks (settle p st) = hooks (commit p st)"
proof -
  have "hooks (commit p (commit p st)) = hooks (commit p st)"
    by (rule commit_hooks_same) (simp_all add: commit_deps)
  then show ?thesis by (simp add: settle_two)
qed

lemma rendered_settle: "rendered (settle p st) = p"
  by (simp add: settle_two commit_rendered)

lemma settle_frame: "pending (settle p st) = pending st" "awaiting (settle p st) = awaiting st"
  by (simp_all add: settle_two commit_frame)

lemma settled_commit:
  assumes "coherent st" and "hooks (commit p st) = hooks st"
  shows "settled (commit p st)"
  using assms coherent_commit [OF assms(1), of p]
  by (simp add: settled_def commit_deps commit_deps_sync commit_rendered)

lemma settled_settle:
  assumes "coherent st"
  shows "settled (settle p st)"
proof (cases "hooks (commit p st) = hooks st")
  case True
  then show ?thesis using settled_commit [OF assms True] by (simp add: settle_two)
next
  case False
  have "hooks (commit p (commit p st)) = hooks (commit p st)"
    by (rule commit_hooks_same) (simp_all add: commit_deps)
  then have "settled (commit p (commit p st))"
    using coherent_commit [OF assms] by (rule settled_commit [rotated])
  then show ?thesis using False by (simp add: settle_two)
qed

lemma settled_coherent: "settled st \<Longrightarrow> coherent st"
  by (simp add: settled_def)

lemma settled_canSync: "settled st \<Longrightarrow> canSync (hooks st) = sync_condition (rendered st)"
  by (auto simp: settled_def coherent_def sync_condition_def)

lemma settled_timers:
  assumes "settled st"
  shows "if canSync (hooks st)
         then \<exists>t. timers st = [t] \<and> cleanup_sync st = Some (tid t) \<and> period t = REFRESH_INTERVAL
                \<and> tid t < next_timer st
         else timers st = [] \<and> cleanup_sync st = None"
  using assms
  by (auto simp: settled_def coherent_def timers_ok_def split: option.splits list.splits)

lemma settle_stable:
  assumes "settled st"
  shows "settle (rendered st) st = st"
proof -
  have "commit (rendered st) st = st"
    using assms by (simp add: settled_def commit_def Let_def)
  then show ?thesis by (simp add: settle_two)
qed

lemma settled_frame:
  assumes "settled st"
    and "rendered st' = rendered st" "canSync (hooks st') = canSync (hooks st)"
    and "deps_canSync st' = deps_canSync st" "deps_accounts st' = deps_accounts st"
    and "deps_sync st' = deps_sync st" "cleanup_sync st' = cleanup_sync st"
    and "timers st' = timers st" "next_timer st' = next_timer st"
  shows "settled st'"
  using assms timers_ok_frame [of st' st] by (auto simp: settled_def coherent_def)

lemma hooks_settle_settled:
  assumes "settled st"
  shows "hooks (settle p st) =
     (hooks st)
       \<lparr>canSync := sync_condition p,
        filteredData := (if accounts_key p \<noteq> accounts_key (rendered st) then accounts p
                         else filteredData (hooks st)),
        accountsVersion := (if accounts_key p \<noteq> accounts_key (rendered st)
                            then accountsVersion (hooks st) + 1 else accountsVersion (hooks st))\<rparr>"
proof -
  have d: "deps_canSync st = Some (isConnected (rendered st), userInfo (rendered st), serverUrl (rendered st))"
    "deps_accounts st = Some (accounts_key (rendered st))"
    using assms by (simp_all add: settled_def)
  have c: "canSync (hooks st) = sync_condition (rendered st)"
    using assms by (rule settled_canSync)
  have "(if deps_canSync st \<noteq> Some (isConnected p, userInfo p, serverUrl p)
          then sync_condition p else canSync (hooks st)) = sync_condition p"
    using d(1) c by (auto simp: sync_condition_def)
  then show ?thesis
    using d(2) by (simp add: hooks_settle commit_hooks eq_commute [of "accounts_key p"])
qed

lemma commit_canSync:
  assumes "coherent st"
  shows "canSync (hooks (commit p st)) = sync_condition p"
  using assms by (auto simp: coherent_def commit_hooks sync_condition_def)

lemma enable_calls_idle:
  assumes "coherent st" and "\<not> canSync (hooks st)" and "timers st = []"
    and "cleanup_sync st = None" and "sync_condition p"
  shows "calls (settle p st) = calls st @ [StartSync (userInfo p) (serverUrl p) (token p),
                                            SetInterval (next_timer st) REFRESH_INTERVAL]"
    and "timers (settle p st) = [\<lparr>tid = next_timer st, period = REFRESH_INTERVAL, closure = p\<rparr>]"
proof -
  let ?c = "commit p st"
  have t: "timers_ok st"
    using assms(1) by (simp add: coherent_def)
  have on': "canSync (hooks ?c)"
    using commit_canSync [OF assms(1), of p] assms(5) by simp
  have first: "calls ?c = calls st \<and> timers ?c = [] \<and> next_timer ?c = next_timer st
                 \<and> cleanup_sync ?c = None"
  proof (cases "deps_sync st = Some (startSync p, canSync (hooks st), token p)")
    case True
    then show ?thesis using commit_timers_keep [OF True] assms(3,4) by simp
  next
    case False
    then show ?thesis using commit_timers_rerun [OF False t] assms(2,4) by simp
  qed
  have ne: "hooks ?c \<noteq> hooks st"
    using on' assms(2) by auto
  have again: "deps_sync ?c \<noteq> Some (startSync p, canSync (hooks ?c), token p)"
    using on' assms(2) by (simp add: commit_deps_sync)
  have t': "timers_ok ?c"
    using t by (rule timers_ok_commit)
  show "calls (settle p st) = calls st @ [StartSync (userInfo p) (serverUrl p) (token p),
                                            SetInterval (next_timer st) REFRESH_INTERVAL]"
    using ne commit_timers_rerun(4) [OF again t'] first on' by (simp add: settle_two)
  show "timers (settle p st) = [\<lparr>tid = next_timer st, period = REFRESH_INTERVAL, closure = p\<rparr>]"
    using ne commit_timers_rerun(1) [OF again t'] first on' by (simp add: settle_two)
qed

lemma enable_calls:
  assumes "settled st" and "\<not> sync_condition (rendered st)" and "sync_condition p"
  shows "calls (settle p st) = calls st @ [StartSync (userInfo p) (serverUrl p) (token p),
                                            SetInterval (next_timer st) REFRESH_INTERVAL]"
    and "timers (settle p st) = [\<lparr>tid = next_timer st, period = REFRESH_INTERVAL, closure = p\<rparr>]"
proof -
  have off: "\<not> canSync (hooks st)"
    using assms(1,2) by (simp add: settled_canSync)
  have idle: "timers st = []" "cleanup_sync st = None"
    using settled_timers [OF assms(1)] off by simp_all
  show "calls (settle p st) = calls st @ [StartSync (userInfo p) (serverUrl p) (token p),
                                            SetInterval (next_timer st) REFRESH_INTERVAL]"
    and "timers (settle p st) = [\<lparr>tid = next_timer st, period = REFRESH_INTERVAL, closure = p\<rparr>]"
    using enable_calls_idle [OF settled_coherent [OF assms(1)] off idle assms(3)] by simp_all
qed

lemma keep_timer:
  assumes "settled st" and "sync_condition (rendered st)" and "sync_condition p"
    and "startSync p = startSync (rendered st)" and "token p = token (rendered st)"
  shows "timers (settle p st) = timers st" and "calls (settle p st) = calls st"
proof -
  let ?c = "commit p st"
  have on: "canSync (hooks st)"
    using assms(1,2) by (simp add: settled_canSync)
  have k: "deps_sync st = Some (startSync p, canSync (hooks st), token p)"
    using assms(1,4,5) by (simp add: settled_def)
  have on': "canSync (hooks ?c)"
    using commit_canSync [OF settled_coherent [OF assms(1)], of p] assms(3) by simp
  have k': "deps_sync ?c = Some (startSync p, canSync (hooks ?c), token p)"
    using on on' by (simp add: commit_deps_sync)
  have "timers (commit p ?c) = timers st \<and> calls (commit p ?c) = calls st"
    using commit_timers_keep(1,4) [OF k'] commit_timers_keep(1,4) [OF k] by simp
  moreover have "timers ?c = timers st \<and> calls ?c = calls st"
    using commit_timers_keep(1,4) [OF k] by simp
  ultimately show "timers (settle p st) = timers st" and "calls (settle p st) = calls st"
    by (simp_all add: settle_two)
qed

lemma teardown:
  assumes "settled st"
    and "(startSync p, sync_condition p, token p)
           \<noteq> (startSync (rendered st), sync_condition (rendered st), token (rendered st))"
  shows "\<forall>t\<in>set (timers st). tid t \<notin> tid ` set (timers (settle p st))
                            \<and> ClearInterval (tid t) \<in> set (calls (settle p st))"
proof -
  let ?c = "commit p st"
  have t: "timers_ok st"
    using assms(1) by (simp add: settled_def coherent_def)
  have t': "timers_ok ?c"
    using t by (rule timers_ok_commit)
  have ds: "deps_sync st = Some (startSync (rendered st), canSync (hooks st), token (rendered st))"
    using assms(1) by (simp add: settled_def)
  have cs: "canSync (hooks st) = sync_condition (rendered st)"
    using assms(1) by (rule settled_canSync)
  have hc: "canSync (hooks ?c) = sync_condition p"
    using hooks_settle_settled [OF assms(1), of p] by (simp add: hooks_settle)
  show ?thesis
  proof (cases "deps_sync st = Some (startSync p, canSync (hooks st), token p)")
    case True
    then have flip: "sync_condition p \<noteq> sync_condition (rendered st)"
      using assms(2) ds by auto
    then have ne: "hooks ?c \<noteq> hooks st"
      using hc cs by auto
    have keep: "timers ?c = timers st"
      using commit_timers_keep(1) [OF True] .
    have again: "deps_sync ?c \<noteq> Some (startSync p, canSync (hooks ?c), token p)"
      using flip hc cs by (simp add: commit_deps_sync)
    have "\<forall>t\<in>set (timers (commit p ?c)). next_timer ?c \<le> tid t"
      using commit_new_timers(3) [OF t' again] .
    moreover have "\<forall>t\<in>set (timers ?c). ClearInterval (tid t) \<in> set (calls (commit p ?c))"
      using commit_new_timers(4) [OF t' again] .
    moreover have "\<forall>t\<in>set (timers ?c). tid t < next_timer ?c"
      using t' by (rule old_timers_below)
    ultimately have "\<forall>t\<in>set (timers st). tid t \<notin> tid ` set (timers (commit p ?c))"
      and "\<forall>t\<in>set (timers st). ClearInterval (tid t) \<in> set (calls (commit p ?c))"
      using keep fresh_disjoint [of "timers (commit p ?c)" "next_timer ?c" "timers st"] by simp_all
    moreover have "settle p st = commit p ?c"
      using ne by (simp add: settle_two)
    ultimately show ?thesis by simp
  next
    case False
    have new: "\<forall>t\<in>set (timers ?c). next_timer st \<le> tid t"
      using commit_new_timers(3) [OF t False] .
    have cl: "\<forall>t\<in>set (timers st). ClearInterval (tid t) \<in> set (calls ?c)"
      using commit_new_timers(4) [OF t False] .
    have old: "\<forall>t\<in>set (timers st). tid t < next_timer st"
      using t by (rule old_timers_below)
    have new2: "\<forall>t\<in>set (timers (commit p ?c)). next_timer st \<le> tid t"
      using commit_new_timers(2) [OF t', of p] commit_new_timers(1) [OF t, of p] new
      by (meson order_trans)
    have cl2: "\<forall>t\<in>set (timers st). ClearInterval (tid t) \<in> set (calls (commit p ?c))"
      using cl commit_new_timers(5) [OF t', of p] by blast
    have "settle p st = ?c \<or> settle p st = commit p ?c"
      by (simp add: settle_two)
    then show ?thesis
    proof
      assume e: "settle p st = ?c"
      show ?thesis
        using fresh_disjoint [OF new old] cl by (simp add: e)
    next
      assume e: "settle p st = commit p ?c"
      show ?thesis
        using fresh_disjoint [OF new2 old] cl2 by (simp add: e)
    qed
  qed
qed

lemma stale_activation:
  assumes "settled st" and "sync_condition (rendered st)" and "\<not> sync_condition p"
    and "(startSync p, token p) \<noteq> (startSync (rendered st), token (rendered st))"
    and "cleanup_sync st = Some i"
  shows "calls (settle p st) =
           calls st @ [ClearInterval i, StartSync (userInfo p) (serverUrl p) (token p),
                       SetInterval (next_timer st) REFRESH_INTERVAL,
                       ClearInterval (next_timer st)]"
    and "timers (settle p st) = []"
proof -
  let ?c = "commit p st"
  have on: "canSync (hooks st)"
    using assms(1,2) by (simp add: settled_canSync)
  have t: "timers_ok st"
    using assms(1) by (simp add: settled_def coherent_def)
  have t': "timers_ok ?c"
    using t by (rule timers_ok_commit)
  have ds: "deps_sync st = Some (startSync (rendered st), canSync (hooks st), token (rendered st))"
    using assms(1) by (simp add: settled_def)
  have r: "deps_sync st \<noteq> Some (startSync p, canSync (hooks st), token p)"
    using ds assms(4) by auto
  have off: "\<not> canSync (hooks ?c)"
    using hooks_settle_settled [OF assms(1), of p] assms(3) by (simp add: hooks_settle)
  have ne: "hooks ?c \<noteq> hooks st"
    using on off by auto
  have again: "deps_sync ?c \<noteq> Some (startSync p, canSync (hooks ?c), token p)"
    using on off by (simp add: commit_deps_sync)
  have e: "settle p st = commit p ?c"
    using ne by (simp add: settle_two)
  show "calls (settle p st) =
           calls st @ [ClearInterval i, StartSync (userInfo p) (serverUrl p) (token p),
                       SetInterval (next_timer st) REFRESH_INTERVAL,
                       ClearInterval (next_timer st)]"
    unfolding e
    using commit_timers_rerun(4) [OF again t'] commit_timers_rerun(2,4) [OF r t] on off assms(5)
    by simp
  show "timers (settle p st) = []"
    unfolding e using commit_timers_rerun(1) [OF again t'] off by simp
qed

section \<open>Handlers leave the effects' bookkeeping alone\<close>

lemmas handler_defs =
  interval_fires_def interactions_done_def onRefresh_call_def onRefresh_resume_def
  handleSearch_def handleEditAccount_def onAccountEdit_def closeEditAccountModal_def
  onAccountDelete_def handleAddAccount_def closeEnterAccountModal_def import_error_def
  import_scan_def handleScanPress_def handleCloseScanner_def handleScanError_def
  togglePlusButton_def closeOptions_def openEnterAccountModal_def openImportAccountModal_def
  onComplete_def

lemma handle_frame:
  "rendered (handle lc e st) = rendered st"
  "canSync (hooks (handle lc e st)) = canSync (hooks st)"
  "deps_canSync (handle lc e st) = deps_canSync st"
  "deps_accounts (handle lc e st) = deps_accounts st"
  "deps_sync (handle lc e st) = deps_sync st"
  "cleanup_sync (handle lc e st) = cleanup_sync st"
  "timers (handle lc e st) = timers st"
  "next_timer (handle lc e st) = next_timer st"
  by (cases e; simp add: handler_defs split: option.splits list.splits account_input.splits sync_outcome.splits)+


lemma handle_keeps_filter:
  assumes "\<And>q. e \<noteq> Search q"
  shows "filteredData (hooks (handle lc e st)) = filteredData (hooks st)"
    and "searchQuery (hooks (handle lc e st)) = searchQuery (hooks st)"
  using assms
  by (cases e; simp add: handler_defs split: option.splits list.splits account_input.splits sync_outcome.splits)+

lemma settled_handle: "settled st \<Longrightarrow> settled (handle lc e st)"
  by (rule settled_frame) (simp_all add: handle_frame)

lemma step_Render: "step lc (Render p) st = settle p st"
  by (simp add: step_def)

lemma step_handler:
  assumes "settled st" and "\<And>p. e \<noteq> Render p"
  shows "step lc e st = handle lc e st"
proof -
  have "next_props e st = rendered st"
    using assms(2) by (cases e) auto
  then have "next_props e st = rendered (handle lc e st)"
    by (simp add: handle_frame)
  then show ?thesis
    using settle_stable [OF settled_handle [OF assms(1), of lc e]] by (simp add: step_def)
qed

lemma coherent_initial: "coherent (initial fd p)"
  by (simp add: coherent_def timers_ok_def initial_def)

lemma mount_calls:
  assumes "mount sc p = Inr st" and "sync_condition p"
  shows "calls st = [StartSync (userInfo p) (serverUrl p) (token p), SetInterval 0 REFRESH_INTERVAL]"
proof -
  obtain fd where st: "st = settle p (initial fd p)"
    using assms(1) by (auto simp: mount_def split: sum.splits)
  have i: "\<not> canSync (hooks (initial fd p :: ('a, 'b) component))"
    "timers (initial fd p :: ('a, 'b) component) = []"
    "cleanup_sync (initial fd p :: ('a, 'b) component) = None"
    "calls (initial fd p :: ('a, 'b) component) = []"
    "next_timer (initial fd p :: ('a, 'b) component) = 0"
    by (simp_all add: initial_def)
  show ?thesis
    using enable_calls_idle(1) [OF coherent_initial i(1,2,3) assms(2)] i(4,5)
    by (simp add: st)
qed

lemma reachable_settled: "reachable lc st \<Longrightarrow> settled st"
proof (induction rule: reachable.induct)
  case (mounted sc p st)
  then show ?case
    by (auto simp: mount_def split: sum.splits intro: settled_settle coherent_initial)
next
  case (stepped st e)
  then show ?case
    unfolding step_def by (intro settled_settle settled_coherent settled_handle)
qed

lemma commit_closures:
  assumes "coherent st" and "fresh_closures st" and "canSync (hooks st) = sync_condition p"
  shows "list_all (\<lambda>t. sync_condition (closure t) \<and> startSync (closure t) = startSync p
                       \<and> token (closure t) = token p) (timers (commit p st))"
proof (cases "deps_sync st = Some (startSync p, canSync (hooks st), token p)")
  case True
  then show ?thesis
    using assms(2) commit_timers_keep(1) [OF True]
    by (simp add: fresh_closures_def list_all_iff)
next
  case False
  have "timers_ok st" using assms(1) by (simp add: coherent_def)
  then show ?thesis
    using commit_timers_rerun(1) [OF False] assms(3) by simp
qed

lemma fresh_closures_commit:
  assumes "coherent st" and "fresh_closures st" and "canSync (hooks st) = sync_condition p"
  shows "fresh_closures (commit p st)"
  using commit_closures [OF assms]
  by (simp add: fresh_closures_def commit_deps_sync list_all_iff)

lemma closures_settle:
  assumes "coherent st" and "fresh_closures st"
  shows "closures_ok (settle p st)"
proof -
  let ?c = "commit p st"
  let ?Q = "\<lambda>t. sync_condition (closure t) \<and> startSync (closure t) = startSync p
                \<and> token (closure t) = token p"
  have t: "timers_ok st" using assms(1) by (simp add: coherent_def)
  have c: "coherent ?c" using assms(1) by (rule coherent_commit)
  have t': "timers_ok ?c" using c by (simp add: coherent_def)
  have on: "canSync (hooks ?c) = sync_condition p"
    using assms(1) by (rule commit_canSync)
  show ?thesis
  proof (cases "hooks ?c = hooks st")
    case True
    then have "canSync (hooks st) = sync_condition p" using on by simp
    then have "list_all ?Q (timers ?c)"
      by (rule commit_closures [OF assms])
    then show ?thesis
      using True by (simp add: closures_ok_def settle_two commit_rendered)
  next
    case False
    have "list_all ?Q (timers (commit p ?c))"
    proof (cases "deps_sync ?c = Some (startSync p, canSync (hooks ?c), token p)")
      case True
      then have same: "canSync (hooks st) = sync_condition p"
        using on by (simp add: commit_deps_sync)
      have "list_all ?Q (timers ?c)"
        using same by (rule commit_closures [OF assms])
      then show ?thesis
        using commit_timers_keep(1) [OF True] by simp
    next
      case False
      then show ?thesis
        using commit_timers_rerun(1) [OF False t'] on by simp
    qed
    then show ?thesis
      using False by (simp add: closures_ok_def settle_two commit_rendered)
  qed
qed

lemma closures_fresh:
  assumes "settled st" and "closures_ok st"
  shows "fresh_closures st"
  using assms by (simp add: settled_def closures_ok_def fresh_closures_def list_all_iff)

lemma reachable_closures: "reachable lc st \<Longrightarrow> closures_ok st"
proof (induction rule: reachable.induct)
  case (mounted sc p st)
  have "fresh_closures (initial fd p :: ('a, 'b) component)" for fd
    by (simp add: fresh_closures_def initial_def)
  then show ?case
    using mounted by (auto simp: mount_def split: sum.splits intro: closures_settle coherent_initial)
next
  case (stepped st e)
  have s: "settled st" using stepped.hyps by (rule reachable_settled)
  have "fresh_closures st" using s stepped.IH by (rule closures_fresh)
  then have "fresh_closures (handle lc e st)"
    by (simp add: fresh_closures_def handle_frame cong: option.case_cong)
  then show ?case
    unfolding step_def
    by (intro closures_settle settled_coherent settled_handle s)
qed

section \<open>Strings\<close>

lemma dropWhile_all: "(\<forall>x\<in>set (dropWhile P xs). P x) \<longleftrightarrow> (\<forall>x\<in>set xs. P x)"
proof
  assume a: "\<forall>x\<in>set (dropWhile P xs). P x"
  have "dropWhile P xs = []"
  proof (rule ccontr)
    assume n: "dropWhile P xs \<noteq> []"
    then have "\<not> P (hd (dropWhile P xs))" by (rule hd_dropWhile)
    moreover have "hd (dropWhile P xs) \<in> set (dropWhile P xs)" using n by simp
    ultimately show False using a by blast
  qed
  then show "\<forall>x\<in>set xs. P x" by (simp add: dropWhile_eq_Nil_conv)
next
  assume "\<forall>x\<in>set xs. P x"
  then show "\<forall>x\<in>set (dropWhile P xs). P x" by (meson set_dropWhileD)
qed

lemma trim_empty_iff: "trim s = [] \<longleftrightarrow> (\<forall>c\<in>set s. isWhiteSpace c)"
  by (simp add: trim_def dropWhile_eq_Nil_conv dropWhile_all)

lemma includes_js_sublist: "includes_js s t \<longleftrightarrow> sublist t s"
  by (induction s) (simp_all add: sublist_Cons_right)

lemma StringToCodePoints_units:
  "list_all (\<lambda>c. \<not> is_leading c) s \<Longrightarrow> StringToCodePoints s = map unat s"
  by (induction s rule: StringToCodePoints.induct) simp_all

lemma lower_from_simple:
  "list_all (\<lambda>n. n \<noteq> 0x3A3 \<and> n \<noteq> 0x130) ns \<Longrightarrow> lower_from T before ns = map (simple_lower T) ns"
  by (induction ns arbitrary: before) (simp_all add: lower_mapping_def)

lemma CodePointsToString_units:
  "list_all (\<lambda>n. n \<le> 0xFFFF) ns \<Longrightarrow> CodePointsToString ns = map of_nat ns"
  by (induction ns) (simp_all add: CodePointsToString_def UTF16EncodeCodePoint_def)

lemma unat_neq_numeral:
  fixes c :: jschar
  shows "c \<noteq> numeral k \<Longrightarrow> unat c \<noteq> numeral k"
  by (metis le_refl le_unat_uoi of_nat_numeral word_unat_eq_iff)

lemma plain_toLowerCase:
  assumes "plain T s"
  shows "toLowerCase T s = map (lower_unit T) s"
proof -
  have 1: "StringToCodePoints s = map unat s"
    using assms by (intro StringToCodePoints_units) (simp add: plain_def list_all_iff)
  have 2: "lower_from T [] (map unat s) = map (simple_lower T) (map unat s)"
    using assms
    by (intro lower_from_simple) (simp add: plain_def list_all_iff unat_neq_numeral)
  have 3: "CodePointsToString (map (simple_lower T) (map unat s))
             = map of_nat (map (simple_lower T) (map unat s))"
    using assms by (intro CodePointsToString_units) (simp add: plain_def list_all_iff)
  show ?thesis
    unfolding toLowerCase_def 1 2 3 by (simp add: lower_unit_def)
qed

lemma sublist_map_iff:
  "sublist (map f q) (map f n) \<longleftrightarrow> (\<exists>u. sublist u n \<and> map f u = map f q)"
proof
  assume "sublist (map f q) (map f n)"
  then obtain ps ss where "map f n = ps @ map f q @ ss"
    by (auto simp: sublist_def)
  then obtain n1 u n2 where "n = n1 @ u @ n2" "map f u = map f q"
    by (metis map_eq_append_conv)
  then show "\<exists>u. sublist u n \<and> map f u = map f q"
    unfolding sublist_def by blast
next
  assume "\<exists>u. sublist u n \<and> map f u = map f q"
  then obtain u ps ss where "n = ps @ u @ ss" "map f u = map f q"
    by (auto simp: sublist_def)
  then have "map f n = map f ps @ map f q @ map f ss" by simp
  then show "sublist (map f q) (map f n)"
    unfolding sublist_def by blast
qed

lemma lowered_contains_iff:
  assumes "plain T q" and "plain T n"
  shows "sublist (toLowerCase T q) (toLowerCase T n) \<longleftrightarrow> ci_substring T q n"
  by (simp add: plain_toLowerCase [OF assms(1)] plain_toLowerCase [OF assms(2)]
      sublist_map_iff ci_substring_def same_ignoring_case_def)

section \<open>The sample states\<close>

lemma sync_condition_samples: "sync_condition signed_in" "\<not> sync_condition signed_out"
  by (simp_all add: sync_condition_def signed_in_def signed_out_def truthy_bool_def
      truthy_obj_def truthy_str_def js_def)

lemma home_reachable: "reachable lc home"
proof (rule reachable.mounted)
  show "mount Hoisted signed_in = Inr home"
    by (simp add: mount_def home_def useState_accounts_def uninitialised_reads_def
        HomePage_consts_def)
qed

lemma home_rendered: "rendered home = signed_in"
  by (simp add: home_def rendered_settle)

lemma home_hooks:
  "hooks home = \<lparr>isPlusButton = True, showOptions = False, showEnterAccountModal = False,
               searchQuery = [], filteredData = Some [alice, bob], showScanner = False,
               showEditAccountModal = False, editingAccount = None, placeholder = [],
               refreshing = False, canSync = True, accountsVersion = 1\<rparr>"
  using sync_condition_samples(1)
  by (simp add: home_def hooks_settle commit_hooks initial_def) (simp add: signed_in_def)

lemma home_canSync: "canSync (hooks home)"
  by (simp add: home_hooks)

lemma home_timers:
  "timers home = [\<lparr>tid = 0, period = 60000, closure = signed_in\<rparr>]"
  "calls home = [StartSync (Some 7) (Some (js ''https://door'')) (Some (js ''t1'')),
                 SetInterval 0 60000]"
  "next_timer home = 1" "pending home = []" "awaiting home = 0"
proof -
  have v: "commit signed_in (initial None signed_in) =
    (initial None signed_in :: (nat, unit) component)
      \<lparr>hooks := (hooks (initial None signed_in :: (nat, unit) component))
          \<lparr>canSync := True, filteredData := Some [alice, bob], accountsVersion := 1\<rparr>,
       deps_canSync := Some (Some True, Some 7, Some (js ''https://door'')),
       deps_accounts := Some (Some (1, [alice, bob])),
       deps_sync := Some (0, False, Some (js ''t1''))\<rparr>"
    using sync_condition_samples(1)
    by (simp add: commit_def Let_def initial_def sync_cleanup_def canSync_effect_def
        accounts_effect_def sync_effect_def) (simp add: signed_in_def accounts_key_def)
  have h: "home = commit signed_in (commit signed_in (initial None signed_in))"
    unfolding home_def settle_two v by (simp add: initial_def)
  show "timers home = [\<lparr>tid = 0, period = 60000, closure = signed_in\<rparr>]"
    "calls home = [StartSync (Some 7) (Some (js ''https://door'')) (Some (js ''t1'')),
                 SetInterval 0 60000]"
    "next_timer home = 1" "pending home = []" "awaiting home = 0"
    unfolding h v
    by (simp_all add: commit_def Let_def initial_def sync_cleanup_def REFRESH_INTERVAL_def
        sync_effect_def, simp_all add: signed_in_def)
qed

lemma alice_not_bob: "alice \<noteq> bob"
  by (simp add: alice_def bob_def)

lemma searching_reachable: "reachable ascii_lower searching"
  unfolding searching_def by (rule reachable.stepped) (rule home_reachable)

lemma searching_eq: "searching = handleSearch ascii_lower (js ''bob'') home"
  unfolding searching_def
  by (rule step_handler [OF reachable_settled [OF home_reachable [of ascii_lower]],
        of "Search (js ''bob'')" ascii_lower, simplified])

lemma searching_facts:
  "rendered searching = signed_in" "searchQuery (hooks searching) = js ''bob''"
  "trim (js ''bob'') = js ''bob''" "list_data searching = Some [bob]"
proof -
  show r: "rendered searching = signed_in"
    by (simp add: searching_eq handleSearch_def home_rendered)
  show q: "searchQuery (hooks searching) = js ''bob''"
    by (simp add: searching_eq handleSearch_def)
  show t: "trim (js ''bob'') = js ''bob''"
    by (simp add: trim_def js_def isWhiteSpace_def)
  have n: "js ''bob'' \<noteq> []" by (simp add: js_def)
  have f: "filter (\<lambda>item. includes_js (ascii_lower (accountName item)) (ascii_lower (js ''bob'')))
             [alice, bob] = [bob]"
    by (simp add: ascii_lower_def js_def alice_def bob_def)
  show "list_data searching = Some [bob]"
    unfolding list_data_def q t using n f
    by (simp add: searching_eq handleSearch_def home_rendered t) (simp add: signed_in_def)
qed

lemma away_reachable: "reachable lc away"
proof (rule reachable.mounted)
  show "mount Hoisted signed_out = Inr away"
    by (simp add: mount_def away_def useState_accounts_def uninitialised_reads_def
        HomePage_consts_def)
qed

lemma away_rendered: "rendered away = signed_out"
  by (simp add: away_def rendered_settle)

section \<open>Sync triggers and the guard\<close>

text \<open>
  Claim C1.  For every trigger of a sync attempt (initial activation, the periodic timer
  tick, a pull-to-refresh), absent connectivity or incomplete credentials make the call a
  no-op.  The effect of lines 94 to 106 tests the \<open>canSync\<close> of the evaluation that
  scheduled it, which the effect of lines 84 to 86 updates only in the same commit.  When
  the credentials are cleared and the token changes in one evaluation (a sign-out), the
  third effect runs again with the old \<open>canSync\<close>: it clears the running timer, calls
  \<open>startSync\<close> with the cleared credentials and sets a new timer, which the next
  evaluation clears.
\<close>

theorem sign_out_starts_sync:
  "reachable ascii_lower home \<and> \<not> sync_condition signed_out
   \<and> calls (step ascii_lower (Render signed_out) home)
       = calls home @ [ClearInterval 0, StartSync None None None, SetInterval 1 60000,
                       ClearInterval 1]"
proof -
  have s: "settled home"
    using home_reachable [of ascii_lower] by (rule reachable_settled)
  have c: "cleanup_sync home = Some 0"
    using settled_timers [OF s] home_canSync by (simp add: home_timers)
  have d: "(startSync signed_out, token signed_out)
             \<noteq> (startSync (rendered home), token (rendered home))"
    by (simp add: home_rendered signed_in_def signed_out_def)
  have "sync_condition (rendered home)"
    by (simp add: home_rendered sync_condition_samples)
  from stale_activation(1) [OF s this sync_condition_samples(2) d c]
  show ?thesis
    using home_reachable sync_condition_samples(2)
    by (simp add: step_Render home_timers REFRESH_INTERVAL_def signed_out_def)
qed

text \<open>
  Once the component has settled, the guard is accurate for the two user- and
  timer-driven triggers: without the sync condition a pull-to-refresh makes no call and
  leaves the indicator cleared, and no interval timer is left to fire.
\<close>

theorem guard_when_settled:
  assumes "reachable lc st" and "\<not> sync_condition (rendered st)"
  shows "calls (step lc PullToRefresh st) = calls st
       \<and> \<not> refreshing (hooks (step lc PullToRefresh st))
       \<and> awaiting (step lc PullToRefresh st) = awaiting st
       \<and> step lc (IntervalFires i) st = st"
proof -
  have s: "settled st" using assms(1) by (rule reachable_settled)
  have off: "\<not> canSync (hooks st)"
    using s assms(2) by (simp add: settled_canSync)
  have idle: "timers st = []"
    using settled_timers [OF s] off by simp
  show ?thesis
    using off idle by (simp add: step_handler [OF s] onRefresh_call_def interval_fires_def)
qed

theorem guard_when_settled_witness:
  "reachable ascii_lower away \<and> \<not> sync_condition (rendered away)
   \<and> calls (step ascii_lower PullToRefresh away) = calls away
   \<and> \<not> refreshing (hooks (step ascii_lower PullToRefresh away))
   \<and> step ascii_lower (IntervalFires 0) away = away"
proof -
  have c: "\<not> sync_condition (rendered away)"
    by (simp add: away_rendered sync_condition_samples)
  from guard_when_settled [OF away_reachable c, of ascii_lower 0]
  show ?thesis
    using away_reachable c by simp
qed

section \<open>Search\<close>

text \<open>
  Claim C2.  For every account list, filtering with an empty or whitespace-only query
  returns the full input list unchanged and in its original order: \<open>handleSearch\<close>
  stores the list it was given, and the list view shows that list.
\<close>

theorem handleSearch_blank_query:
  assumes "\<forall>c\<in>set query. isWhiteSpace c"
  shows "filteredData (hooks (handleSearch lc query st)) = accounts (rendered st)
       \<and> list_data (handleSearch lc query st) = accounts (rendered st)"
  using assms by (simp add: handleSearch_def list_data_def trim_empty_iff)

theorem handleSearch_blank_query_witness:
  "trim (js ''  '') = []
   \<and> filteredData (hooks (handleSearch ascii_lower (js ''  '') home)) = Some [alice, bob]
   \<and> list_data (handleSearch ascii_lower (js ''  '') home) = Some [alice, bob]"
proof -
  have h: "\<forall>c\<in>set (js ''  ''). isWhiteSpace c"
    by (simp add: js_def isWhiteSpace_def)
  from handleSearch_blank_query [OF h, of ascii_lower home] h
  show ?thesis
    by (simp add: home_rendered trim_empty_iff) (simp add: signed_in_def)
qed

text \<open>
  Claim C3.  For every account list and every query with a non-whitespace character, the
  filtered result is exactly the subsequence, in original order, of the accounts whose
  \<open>accountName\<close> contains the query as a case-insensitive substring.  The handler
  compares the lower-cased name with the lower-cased query, and \<open>toLowerCase\<close> looks at
  the context of a capital sigma: at the end of the name above it becomes the final sigma
  U+03C2, alone in the query it becomes U+03C3.  The account is dropped although its name
  contains the query as it stands.
\<close>

theorem final_sigma_account_dropped:
  "accounts (rendered greek_home) = Some [odos]
   \<and> \<not> isWhiteSpace 0x3A3
   \<and> sublist [0x3A3] (accountName odos)
   \<and> ci_substring latin_greek [0x3A3] (accountName odos)
   \<and> toLowerCase latin_greek (accountName odos) = [0x3BF, 0x3B4, 0x3BF, 0x3C2]
   \<and> toLowerCase latin_greek [0x3A3] = [0x3C3]
   \<and> filteredData (hooks (handleSearch (toLowerCase latin_greek) [0x3A3] greek_home)) = Some []
   \<and> list_data (handleSearch (toLowerCase latin_greek) [0x3A3] greek_home) = Some []"
proof -
  have a: "accounts (rendered greek_home) = Some [odos]"
    by (simp add: greek_home_def rendered_settle greek_names_def)
  have w: "\<not> isWhiteSpace 0x3A3"
    by (simp add: isWhiteSpace_def)
  have p: "sublist [0x3A3] (accountName odos)"
    by (simp add: odos_def sublist_Cons_right)
  have c: "ci_substring latin_greek [0x3A3] (accountName odos)"
    unfolding ci_substring_def same_ignoring_case_def using p by blast
  have n: "toLowerCase latin_greek (accountName odos) = [0x3BF, 0x3B4, 0x3BF, 0x3C2]"
    by (simp add: toLowerCase_def odos_def is_leading_def CodePointsToString_def
        UTF16EncodeCodePoint_def lower_mapping_def Final_Sigma_def latin_greek_def)
  have q: "toLowerCase latin_greek [0x3A3] = [0x3C3]"
    by (simp add: toLowerCase_def CodePointsToString_def UTF16EncodeCodePoint_def
        lower_mapping_def Final_Sigma_def)
  have t: "trim [0x3A3] = [0x3A3]"
    by (simp add: trim_def isWhiteSpace_def)
  have f: "filteredData (hooks (handleSearch (toLowerCase latin_greek) [0x3A3] greek_home))
             = Some []"
    by (simp add: handleSearch_def a t n q)
  have l: "list_data (handleSearch (toLowerCase latin_greek) [0x3A3] greek_home) = Some []"
    using f by (simp add: list_data_def) (simp add: handleSearch_def t)
  show ?thesis
    using a w p c n q f l by simp
qed

text \<open>
  As amended: for every account list and every query with a non-whitespace character, the
  filtered result is exactly the subsequence, in original order, of the accounts whose
  lower-cased \<open>accountName\<close> contains the lower-cased query as a substring.  Where
  \<open>toLowerCase\<close> works code unit by code unit on the query and on the names, these are
  exactly the accounts whose \<open>accountName\<close> contains the query as a case-insensitive
  substring.
\<close>

theorem handleSearch_matches_lowered:
  assumes "accounts (rendered st) = Some items" and "\<exists>c\<in>set query. \<not> isWhiteSpace c"
  shows "filteredData (hooks (handleSearch (toLowerCase T) query st))
           = Some (filter (\<lambda>a. sublist (toLowerCase T query) (toLowerCase T (accountName a)))
                     items)
       \<and> list_data (handleSearch (toLowerCase T) query st)
           = Some (filter (\<lambda>a. sublist (toLowerCase T query) (toLowerCase T (accountName a)))
                     items)
       \<and> subseq (filter (\<lambda>a. sublist (toLowerCase T query) (toLowerCase T (accountName a)))
                   items) items
       \<and> (plain T query \<and> list_all (\<lambda>a. plain T (accountName a)) items \<longrightarrow>
            filteredData (hooks (handleSearch (toLowerCase T) query st))
              = Some (filter (\<lambda>a. ci_substring T query (accountName a)) items))"
proof -
  have t: "trim query \<noteq> []" using assms(2) by (simp add: trim_empty_iff)
  have f: "filteredData (hooks (handleSearch (toLowerCase T) query st))
           = Some (filter (\<lambda>a. sublist (toLowerCase T query) (toLowerCase T (accountName a)))
                     items)"
    using t assms(1) by (simp add: handleSearch_def includes_js_sublist)
  have l: "list_data (handleSearch (toLowerCase T) query st)
           = Some (filter (\<lambda>a. sublist (toLowerCase T query) (toLowerCase T (accountName a)))
                     items)"
    using t assms(1) by (simp add: handleSearch_def list_data_def includes_js_sublist)
  have c: "filter (\<lambda>a. sublist (toLowerCase T query) (toLowerCase T (accountName a))) items
             = filter (\<lambda>a. ci_substring T query (accountName a)) items"
    if "plain T query" and "list_all (\<lambda>a. plain T (accountName a)) items"
    using that by (intro filter_cong refl lowered_contains_iff) (simp_all add: list_all_iff)
  show ?thesis
    using f l c by simp
qed

theorem handleSearch_matches_lowered_witness:
  "trim (js ''ALI'') = js ''ALI''
   \<and> accounts (rendered home) = Some [alice, bob]
   \<and> plain latin_greek (js ''ALI'')
   \<and> plain latin_greek (accountName alice) \<and> plain latin_greek (accountName bob)
   \<and> filteredData (hooks (handleSearch (toLowerCase latin_greek) (js ''ALI'') home))
       = Some [alice]
   \<and> list_data (handleSearch (toLowerCase latin_greek) (js ''ALI'') home) = Some [alice]
   \<and> filter (\<lambda>a. ci_substring latin_greek (js ''ALI'') (accountName a)) [alice, bob] = [alice]"
proof -
  have a: "accounts (rendered home) = Some [alice, bob]"
    by (simp add: home_rendered signed_in_def)
  have q: "\<exists>c\<in>set (js ''ALI''). \<not> isWhiteSpace c"
    by (simp add: js_def isWhiteSpace_def)
  have t: "trim (js ''ALI'') = js ''ALI''"
    by (simp add: trim_def js_def isWhiteSpace_def)
  have p: "plain latin_greek (js ''ALI'')" "plain latin_greek (accountName alice)"
    "plain latin_greek (accountName bob)"
    by (simp_all add: plain_def js_def is_leading_def latin_greek_def alice_def bob_def)
  have n: "toLowerCase latin_greek (js ''ALI'') = js ''ali''"
    "toLowerCase latin_greek (accountName alice) = js ''alice@github''"
    "toLowerCase latin_greek (accountName bob) = js ''bob''"
    by (simp_all add: plain_toLowerCase [OF p(1)] plain_toLowerCase [OF p(2)]
        plain_toLowerCase [OF p(3)] lower_unit_def)
      (simp_all add: js_def latin_greek_def alice_def bob_def lower_unit_def)
  have f: "filter (\<lambda>a. sublist (toLowerCase latin_greek (js ''ALI''))
                          (toLowerCase latin_greek (accountName a))) [alice, bob] = [alice]"
    by (simp add: n includes_js_sublist [symmetric]) (simp add: js_def)
  note T = handleSearch_matches_lowered [OF a q, of latin_greek]
  have 1: "filteredData (hooks (handleSearch (toLowerCase latin_greek) (js ''ALI'') home))
             = Some [alice]"
    using T by (simp only: f)
  have 2: "list_data (handleSearch (toLowerCase latin_greek) (js ''ALI'') home) = Some [alice]"
    using T by (simp only: f)
  have 3: "filteredData (hooks (handleSearch (toLowerCase latin_greek) (js ''ALI'') home))
             = Some (filter (\<lambda>a. ci_substring latin_greek (js ''ALI'') (accountName a))
                       [alice, bob])"
  proof -
    have "plain latin_greek (js ''ALI'')
          \<and> list_all (\<lambda>a. plain latin_greek (accountName a)) [alice, bob]"
      using p by simp
    with T show ?thesis
      by blast
  qed
  have 4: "filter (\<lambda>a. ci_substring latin_greek (js ''ALI'') (accountName a)) [alice, bob]
             = [alice]"
    using 1 3 by (simp only: option.inject)
  from a t p 1 2 4 show ?thesis
    by blast
qed

section \<open>Rename\<close>

text \<open>
  Claim C4.  A rename hands the store the edited account with only \<open>accountName\<close>
  replaced: its \<open>id\<close> and \<open>secretKey\<close> (and \<open>issuer\<close>, \<open>changedAt\<close>) are those of
  the account being edited.  The object carries the previous name as \<open>oldAccountName\<close>.
\<close>

theorem onAccountEdit_stages_rename:
  assumes "editingAccount (hooks st) = Some a"
  shows "calls (onAccountEdit newAccountName st)
           = calls st @ [SetAccountStaged (staged a newAccountName), UpdateAccount]
       \<and> account.truncate (staged a newAccountName) = a\<lparr>accountName := newAccountName\<rparr>
       \<and> id_field (staged a newAccountName) = id_field a
       \<and> secretKey (staged a newAccountName) = secretKey a
       \<and> oldAccountName (staged a newAccountName) = accountName a"
  using assms
  by (simp add: onAccountEdit_def closeEditAccountModal_def staged_def account.truncate_def)

theorem onAccountEdit_stages_rename_witness:
  "editingAccount (hooks (handleEditAccount alice home)) = Some alice
   \<and> calls (onAccountEdit (js ''Al'') (handleEditAccount alice home))
       = calls (handleEditAccount alice home)
           @ [SetAccountStaged (staged alice (js ''Al'')), UpdateAccount]
   \<and> id_field (staged alice (js ''Al'')) = 1
   \<and> secretKey (staged alice (js ''Al'')) = js ''JBSWY3DPEHPK3PXP''
   \<and> accountName (staged alice (js ''Al'')) = js ''Al''
   \<and> oldAccountName (staged alice (js ''Al'')) = js ''Alice@GitHub''"
proof -
  have e: "editingAccount (hooks (handleEditAccount alice home)) = Some alice"
    by (simp add: handleEditAccount_def)
  from onAccountEdit_stages_rename [OF e, of "js ''Al''"] e
  show ?thesis
    by (simp add: alice_def staged_def)
qed

section \<open>The version counter and the list data\<close>




text \<open>
  Claim C9.  Whenever the account collection changes, the filtered data is reset to the
  whole collection whatever the search query is; the list then shows the whole collection,
  and keeps doing so under every event but a new search.
\<close>

theorem accounts_change_resets_filter:
  assumes "reachable lc st"
  shows "(accounts p \<noteq> accounts (rendered st) \<longrightarrow>
            searchQuery (hooks (step lc (Render p) st)) = searchQuery (hooks st)
          \<and> filteredData (hooks (step lc (Render p) st)) = accounts p
          \<and> list_data (step lc (Render p) st) = accounts p)
       \<and> (filteredData (hooks st) = accounts (rendered st) \<and> (\<forall>q. e \<noteq> Search q) \<longrightarrow>
            filteredData (hooks (step lc e st)) = accounts (rendered (step lc e st))
          \<and> list_data (step lc e st) = accounts (rendered (step lc e st)))"
proof -
  have s: "settled st" using assms by (rule reachable_settled)
  have 1: "accounts p \<noteq> accounts (rendered st) \<longrightarrow>
            searchQuery (hooks (step lc (Render p) st)) = searchQuery (hooks st)
          \<and> filteredData (hooks (step lc (Render p) st)) = accounts p
          \<and> list_data (step lc (Render p) st) = accounts p"
    using accounts_key_eq [of p "rendered st"]
    by (auto simp: step_Render list_data_def hooks_settle_settled [OF s] rendered_settle)
  have 2: "filteredData (hooks st) = accounts (rendered st) \<and> (\<forall>q. e \<noteq> Search q) \<longrightarrow>
            filteredData (hooks (step lc e st)) = accounts (rendered (step lc e st))
          \<and> list_data (step lc e st) = accounts (rendered (step lc e st))"
  proof (cases "\<exists>p'. e = Render p'")
    case True
    then show ?thesis
      by (auto simp: step_Render list_data_def hooks_settle_settled [OF s] rendered_settle
          dest: accounts_key_eq [THEN sym])
  next
    case False
    then have n: "\<And>p. e \<noteq> Render p" by auto
    show ?thesis
    proof (intro impI, elim conjE)
      assume f: "filteredData (hooks st) = accounts (rendered st)" and q: "\<forall>q. e \<noteq> Search q"
      have "\<And>q. e \<noteq> Search q" using q by simp
      from handle_keeps_filter [OF this, of lc st] f
      show "filteredData (hooks (step lc e st)) = accounts (rendered (step lc e st))
          \<and> list_data (step lc e st) = accounts (rendered (step lc e st))"
        by (simp add: step_handler [OF s n] list_data_def handle_frame)
    qed
  qed
  show ?thesis using 1 2 by blast
qed

theorem accounts_change_resets_filter_witness:
  "reachable ascii_lower searching
   \<and> searchQuery (hooks searching) = js ''bob''
   \<and> list_data searching = Some [bob]
   \<and> accounts fewer \<noteq> accounts (rendered searching)
   \<and> searchQuery (hooks (step ascii_lower (Render fewer) searching)) = js ''bob''
   \<and> list_data (step ascii_lower (Render fewer) searching) = Some [alice]"
proof -
  have d: "accounts fewer \<noteq> accounts (rendered searching)"
    by (simp add: searching_facts signed_in_def fewer_def)
  from accounts_change_resets_filter [OF searching_reachable, of fewer "Render fewer"] d
  show ?thesis
    using searching_reachable by (simp add: searching_facts) (simp add: fewer_def)
qed

section \<open>The periodic timer\<close>

text \<open>
  Claim C6.  While connectivity and credentials are present, sync attempts are issued on a
  60-second interval timer, and the timer is torn down when the sync conditions or what
  they depend on change.  The sync condition depends on \<open>isConnected\<close>, \<open>userInfo\<close> and
  \<open>serverUrl\<close> (line 86), and the effect that owns the timer passes \<open>userInfo\<close>,
  \<open>serverUrl\<close> and \<open>token\<close> to \<open>startSync\<close>, but its dependency array (line 106)
  lists only \<open>startSync\<close>, \<open>canSync\<close> and \<open>token\<close>.  When another user's
  \<open>userInfo\<close> arrives with the same token, the timer of the first user is kept, and its
  next tick calls \<open>startSync\<close> with the first user's \<open>userInfo\<close>.
\<close>

theorem user_change_keeps_old_timer:
  "reachable ascii_lower home
   \<and> sync_condition (rendered home) \<and> sync_condition other_user
   \<and> userInfo (rendered home) = Some 7 \<and> userInfo other_user = Some 8
   \<and> timers (step ascii_lower (Render other_user) home) = timers home
   \<and> calls (step ascii_lower (Render other_user) home) = calls home
   \<and> userInfo (rendered (step ascii_lower (Render other_user) home)) = Some 8
   \<and> calls (step ascii_lower InteractionsDone
              (step ascii_lower (IntervalFires 0)
                (step ascii_lower (Render other_user) home)))
       = calls home @ [RunAfterInteractions,
                       StartSync (Some 7) (Some (js ''https://door'')) (Some (js ''t1''))]"
proof -
  let ?s1 = "step ascii_lower (Render other_user) home"
  let ?s2 = "step ascii_lower (IntervalFires 0) ?s1"
  have s: "settled home"
    using home_reachable [of ascii_lower] by (rule reachable_settled)
  have c: "sync_condition (rendered home)"
    by (simp add: home_rendered sync_condition_samples)
  have o: "sync_condition other_user"
    by (simp add: sync_condition_def other_user_def truthy_bool_def truthy_obj_def
        truthy_str_def js_def)
  have d: "startSync other_user = startSync (rendered home)"
    "token other_user = token (rendered home)"
    by (simp_all add: home_rendered other_user_def signed_in_def)
  have k: "timers ?s1 = timers home" "calls ?s1 = calls home" "pending ?s1 = []"
    "rendered ?s1 = other_user"
    using keep_timer [OF s c o d]
    by (simp_all add: step_Render settle_frame home_timers rendered_settle)
  have s1: "settled ?s1"
    by (intro reachable_settled [of ascii_lower] reachable.stepped home_reachable)
  have e2: "?s2 = interval_fires 0 ?s1"
    using step_handler [OF s1, of "IntervalFires 0" ascii_lower] by simp
  have s2: "settled ?s2"
    by (intro reachable_settled [of ascii_lower] reachable.stepped home_reachable)
  have e3: "step ascii_lower InteractionsDone ?s2 = interactions_done ?s2"
    using step_handler [OF s2, of InteractionsDone ascii_lower] by simp
  have f: "pending ?s2 = [signed_in]" "calls ?s2 = calls home @ [RunAfterInteractions]"
    unfolding e2 by (simp_all add: interval_fires_def k home_timers)
  have g: "calls (interactions_done ?s2)
             = calls home @ [RunAfterInteractions,
                 StartSync (Some 7) (Some (js ''https://door'')) (Some (js ''t1''))]"
    by (simp add: interactions_done_def f) (simp add: signed_in_def)
  show ?thesis
    using home_reachable c o k(1,2,4) g
    by (simp add: e3 home_rendered) (simp add: signed_in_def other_user_def)
qed

text \<open>
  What does hold of the timer: while connectivity and credentials are present there is one
  interval timer, of period 60000 ms; when it fires it defers a task that calls
  \<open>startSync\<close> with the variables of its closure; when \<open>startSync\<close>, the sync
  condition or \<open>token\<close> changes, the timer is cleared.
\<close>

theorem sync_timer_lifecycle:
  assumes "reachable lc st"
  shows "(sync_condition (rendered st) \<longrightarrow>
            (\<exists>t. timers st = [t] \<and> period t = 60000 \<and> cleanup_sync st = Some (tid t)))
       \<and> (\<not> sync_condition (rendered st) \<longrightarrow> timers st = [])
       \<and> (\<forall>t\<in>set (timers st).
            pending (step lc (IntervalFires (tid t)) st) = pending st @ [closure t]
          \<and> calls (step lc (IntervalFires (tid t)) st) = calls st @ [RunAfterInteractions]
          \<and> sync_condition (closure t) \<and> token (closure t) = token (rendered st))
       \<and> (\<forall>c cs. pending st = c # cs \<longrightarrow>
            pending (step lc InteractionsDone st) = cs
          \<and> calls (step lc InteractionsDone st)
              = calls st @ [StartSync (userInfo c) (serverUrl c) (token c)])
       \<and> ((startSync p, sync_condition p, token p)
             \<noteq> (startSync (rendered st), sync_condition (rendered st), token (rendered st)) \<longrightarrow>
            (\<forall>t\<in>set (timers st).
               tid t \<notin> tid ` set (timers (step lc (Render p) st))
             \<and> ClearInterval (tid t) \<in> set (calls (step lc (Render p) st))))"
proof -
  have s: "settled st" using assms by (rule reachable_settled)
  have c: "canSync (hooks st) = sync_condition (rendered st)"
    using s by (rule settled_canSync)
  have 1: "sync_condition (rendered st) \<longrightarrow>
            (\<exists>t. timers st = [t] \<and> period t = 60000 \<and> cleanup_sync st = Some (tid t))"
    using settled_timers [OF s] c by (auto simp: REFRESH_INTERVAL_def)
  have 2: "\<not> sync_condition (rendered st) \<longrightarrow> timers st = []"
    using settled_timers [OF s] c by auto
  have k: "closures_ok st" using assms by (rule reachable_closures)
  have 3: "\<forall>t\<in>set (timers st).
            pending (step lc (IntervalFires (tid t)) st) = pending st @ [closure t]
          \<and> calls (step lc (IntervalFires (tid t)) st) = calls st @ [RunAfterInteractions]
          \<and> sync_condition (closure t) \<and> token (closure t) = token (rendered st)"
    using settled_timers [OF s] k
    by (auto simp: step_handler [OF s] interval_fires_def closures_ok_def split: if_splits)
  have 4: "\<forall>c cs. pending st = c # cs \<longrightarrow>
            pending (step lc InteractionsDone st) = cs
          \<and> calls (step lc InteractionsDone st)
              = calls st @ [StartSync (userInfo c) (serverUrl c) (token c)]"
    by (simp add: step_handler [OF s] interactions_done_def)
  have 5: "(startSync p, sync_condition p, token p)
             \<noteq> (startSync (rendered st), sync_condition (rendered st), token (rendered st)) \<longrightarrow>
            (\<forall>t\<in>set (timers st).
               tid t \<notin> tid ` set (timers (step lc (Render p) st))
             \<and> ClearInterval (tid t) \<in> set (calls (step lc (Render p) st)))"
    using teardown [OF s, of p] unfolding step_Render by blast
  show ?thesis using 1 2 3 4 5 by blast
qed

theorem sync_timer_lifecycle_witness:
  "reachable ascii_lower home
   \<and> sync_condition (rendered home)
   \<and> timers home = [\<lparr>tid = 0, period = 60000, closure = signed_in\<rparr>]
   \<and> pending (step ascii_lower (IntervalFires 0) home) = [signed_in]
   \<and> calls (step ascii_lower (IntervalFires 0) home) = calls home @ [RunAfterInteractions]
   \<and> (startSync signed_out, sync_condition signed_out, token signed_out)
        \<noteq> (startSync (rendered home), sync_condition (rendered home), token (rendered home))
   \<and> 0 \<notin> tid ` set (timers (step ascii_lower (Render signed_out) home))
   \<and> ClearInterval 0 \<in> set (calls (step ascii_lower (Render signed_out) home))"
proof -
  have c: "sync_condition (rendered home)"
    by (simp add: home_rendered sync_condition_samples)
  have d: "(startSync signed_out, sync_condition signed_out, token signed_out)
        \<noteq> (startSync (rendered home), sync_condition (rendered home), token (rendered home))"
    by (simp add: home_rendered sync_condition_samples)
  from sync_timer_lifecycle [OF home_reachable, of ascii_lower signed_out] c d
  show ?thesis
    using home_reachable by (simp add: home_timers)
qed

text \<open>
  The dependency array of line 106 does not list \<open>userInfo\<close> and \<open>serverUrl\<close>: when
  they change while the sync condition, \<open>token\<close> and \<open>startSync\<close> stay as they were,
  the timer is kept, no call is made, and its callback goes on passing the values of the
  evaluation that set it.
\<close>

theorem timer_kept_when_credentials_change:
  assumes "reachable lc st" and "sync_condition (rendered st)" and "sync_condition p"
    and "startSync p = startSync (rendered st)" and "token p = token (rendered st)"
  shows "timers (step lc (Render p) st) = timers st
       \<and> calls (step lc (Render p) st) = calls st
       \<and> rendered (step lc (Render p) st) = p"
  using keep_timer [OF reachable_settled [OF assms(1)] assms(2-5)]
  by (simp add: step_Render rendered_settle)

theorem timer_kept_when_credentials_change_witness:
  "reachable ascii_lower home \<and> sync_condition (rendered home) \<and> sync_condition other_user
   \<and> userInfo other_user = Some 8
   \<and> timers (step ascii_lower (Render other_user) home)
       = [\<lparr>tid = 0, period = 60000, closure = signed_in\<rparr>]
   \<and> userInfo signed_in = Some 7
   \<and> calls (step ascii_lower (Render other_user) home) = calls home"
proof -
  have c: "sync_condition (rendered home)"
    by (simp add: home_rendered sync_condition_samples)
  have o: "sync_condition other_user"
    by (simp add: sync_condition_def other_user_def truthy_bool_def truthy_obj_def
        truthy_str_def js_def)
  have d: "startSync other_user = startSync (rendered home)"
    "token other_user = token (rendered home)"
    by (simp_all add: home_rendered other_user_def signed_in_def)
  from timer_kept_when_credentials_change [OF home_reachable c o d, of ascii_lower]
  show ?thesis
    using home_reachable c o by (simp add: home_timers) (simp add: other_user_def signed_in_def)
qed

text \<open>
  Claim C7.  When the sync condition becomes true, \<open>startSync\<close> is called at once with
  the current credentials, before the interval timer is even set, so before its first
  tick.
\<close>

theorem sync_starts_when_enabled:
  fixes st :: "('u, 'd) component"
  assumes "reachable lc st" and "\<not> sync_condition (rendered st)" and "sync_condition p"
  shows "calls (step lc (Render p) st)
           = calls st @ [StartSync (userInfo p) (serverUrl p) (token p),
                          SetInterval (next_timer st) 60000]
       \<and> timers (step lc (Render p) st) = [\<lparr>tid = next_timer st, period = 60000, closure = p\<rparr>]
       \<and> pending (step lc (Render p) st) = pending st
       \<and> (\<forall>st' :: ('u, 'd) component. mount Hoisted p = Inr st' \<longrightarrow>
            calls st' = [StartSync (userInfo p) (serverUrl p) (token p), SetInterval 0 60000])"
proof -
  have "calls st' = [StartSync (userInfo p) (serverUrl p) (token p), SetInterval 0 60000]"
    if "mount Hoisted p = Inr st'" for st' :: "('u, 'd) component"
    using mount_calls [OF that assms(3)] by (simp add: REFRESH_INTERVAL_def)
  then have m: "\<forall>st' :: ('u, 'd) component. mount Hoisted p = Inr st' \<longrightarrow>
            calls st' = [StartSync (userInfo p) (serverUrl p) (token p), SetInterval 0 60000]"
    by blast
  show ?thesis
    using enable_calls [OF reachable_settled [OF assms(1)] assms(2,3)] m
    by (simp add: step_Render REFRESH_INTERVAL_def settle_frame)
qed

theorem sync_starts_when_enabled_witness:
  "reachable ascii_lower away
   \<and> \<not> sync_condition (rendered away)
   \<and> sync_condition signed_in
   \<and> calls (step ascii_lower (Render signed_in) away)
       = calls away @ [StartSync (Some 7) (Some (js ''https://door'')) (Some (js ''t1'')),
                       SetInterval (next_timer away) 60000]
   \<and> timers (step ascii_lower (Render signed_in) away)
       = [\<lparr>tid = next_timer away, period = 60000, closure = signed_in\<rparr>]
   \<and> mount Hoisted signed_in = Inr home
   \<and> calls home = [StartSync (Some 7) (Some (js ''https://door'')) (Some (js ''t1'')),
                    SetInterval 0 60000]"
proof -
  have c: "\<not> sync_condition (rendered away)"
    by (simp add: away_rendered sync_condition_samples)
  have m: "mount Hoisted signed_in = Inr home"
    by (simp add: mount_def home_def useState_accounts_def uninitialised_reads_def
        HomePage_consts_def)
  note T = sync_starts_when_enabled [OF away_reachable c sync_condition_samples(1), of ascii_lower]
  from T have a: "calls (step ascii_lower (Render signed_in) away)
       = calls away @ [StartSync (Some 7) (Some (js ''https://door'')) (Some (js ''t1'')),
                       SetInterval (next_timer away) 60000]
   \<and> timers (step ascii_lower (Render signed_in) away)
       = [\<lparr>tid = next_timer away, period = 60000, closure = signed_in\<rparr>]"
    by (simp add: signed_in_def)
  from T m have "calls home = [StartSync (userInfo signed_in) (serverUrl signed_in)
                    (token signed_in), SetInterval 0 60000]"
    by blast
  then have b: "calls home = [StartSync (Some 7) (Some (js ''https://door'')) (Some (js ''t1'')),
                    SetInterval 0 60000]"
    by (simp add: signed_in_def)
  show ?thesis
    using away_reachable c sync_condition_samples(1) a m b by simp
qed

section \<open>Refresh\<close>




section \<open>The first evaluation\<close>

text \<open>
  Claim C10.  The initial value of \<open>filteredData\<close> (line 52) reads \<open>accounts\<close>, which
  line 65 declares: on every evaluation the read comes before the binding is initialised.
  It is the only such read among the declarations.
\<close>

theorem accounts_read_before_declaration:
  "uninitialised_reads HomePage_consts = [(52, ''accounts'')]
   \<and> declared_at ''accounts'' HomePage_consts = [65]
   \<and> useState_accounts BlockScoped p = Inl (ReferenceError ''accounts'')
   \<and> useState_accounts Hoisted p = Inr None
   \<and> mount BlockScoped p = Inl (ReferenceError ''accounts'')"
  by (simp add: mount_def useState_accounts_def uninitialised_reads_def declared_at_def
      HomePage_consts_def)

end
